theory Spec2Isabelle
  imports Main "HOL-Library.Word"
begin

unbundle bit_operations_syntax

section \<open>tinyhci: the host side of the CC3000 HCI link\<close>

text \<open>
  The embedding follows \<^verbatim>\<open>tinyhci.cpp\<close> function by function. The target is an AVR
  board (the watchdog block of \<^verbatim>\<open>wlan_init\<close> names the ATmega registers), so
  \<^verbatim>\<open>int\<close> is 16 bits wide and \<^verbatim>\<open>long\<close> is 32 bits wide.

  The hardware is the environment of the driver. Each primitive that reads the world has
  its own script in the state:
  \<^item> \<^verbatim>\<open>SPI.transfer\<close>: \<open>miso\<close> gives the byte the device shifts out during the
    \<open>n\<close>-th transfer since power-on, \<open>mosi\<close> is the list of bytes the host has shifted
    out so far (so its length is the number of transfers made);
  \<^item> \<^verbatim>\<open>millis()\<close>: \<open>clock\<close> gives the value returned by the \<open>n\<close>-th call,
    \<open>clock_reads\<close> counts the calls;
  \<^item> \<^verbatim>\<open>digitalRead(CC3K_IRQ_PIN)\<close>: \<open>irq_reads\<close> lists the levels the coming reads
    will see;
  \<^item> the falling-edge interrupt: \<open>irqs\<close> lists, for each coming point at which the
    application thread can be interrupted, whether the handler \<^verbatim>\<open>hci_irq\<close> runs
    there.
  The user's \<^verbatim>\<open>wifi_callback\<close> is an external collaborator: \<open>callbacks\<close> logs
  its invocations in order.

  The points at which the handler can run are the iterations of the busy-wait loops,
  where the application thread waits for it, and the window of \<^verbatim>\<open>closesocket\<close>
  between its loop and the command it sends. A function returns \<open>None\<close> when a
  busy-wait loop is still spinning at the end of its script.
\<close>

type_synonym u8 = "8 word"
type_synonym u16 = "16 word"
type_synonym u32 = "32 word"
type_synonym c_int = "16 word"
type_synonym c_long = "32 word"

datatype level = LOW | HIGH

record hci =
  wifi_connected :: u8
  wifi_dhcp :: u8
  ip_addr :: "u8 list"
  hci_data_available :: u8
  hci_pending_event_available :: u8
  hci_pending_event :: u16
  hci_buffer_size :: u16
  hci_buffer_count :: u8
  hci_available_buffer_count :: u8
  hci_payload_size :: u16
  hci_pad :: u8
  hci_state :: u8
  cs_pin :: level
  mosi :: "u8 list"
  miso :: "nat \<Rightarrow> u8"
  clock :: "nat \<Rightarrow> u32"
  clock_reads :: nat
  irq_reads :: "level list"
  irqs :: "bool list"
  callbacks :: "(u16 \<times> u32) list"

text \<open>
  The constants of \<^verbatim>\<open>tinyhci.h\<close> that the code uses. The header is not part of the
  sources at hand, so the model takes them as a parameter.
\<close>

record tinyhci_h =
  HCI_EVNT_WLAN_UNSOL_CONNECT :: u16
  HCI_EVNT_WLAN_UNSOL_DISCONNECT :: u16
  HCI_EVNT_WLAN_UNSOL_DHCP :: u16
  HCI_EVNT_WLAN_UNSOL_TCP_CLOSE_WAIT :: u16
  HCI_EVNT_DATA_UNSOL_FREE_BUFF :: u16
  HCI_EVNT_CC3000_LOCKED :: u16
  HCI_EVNT_SEND :: u16
  EFAIL :: c_int

definition HCI_STATE_IDLE :: u8 where "HCI_STATE_IDLE = 0"
definition HCI_STATE_WAIT_ASSERT :: u8 where "HCI_STATE_WAIT_ASSERT = 1"
definition HCI_READ :: u8 where "HCI_READ = 3"
definition HCI_WRITE :: u8 where "HCI_WRITE = 1"
definition HCI_TYPE_CMND :: u8 where "HCI_TYPE_CMND = 1"
definition HCI_TYPE_DATA :: u8 where "HCI_TYPE_DATA = 2"
definition HCI_TYPE_EVNT :: u8 where "HCI_TYPE_EVNT = 4"
definition HCI_CMND_SEND :: u16 where "HCI_CMND_SEND = 0x0081"
definition HCI_CMND_SOCKET :: u16 where "HCI_CMND_SOCKET = 0x1001"
definition HCI_CMND_RECV :: u16 where "HCI_CMND_RECV = 0x1004"
definition HCI_CMND_CONNECT :: u16 where "HCI_CMND_CONNECT = 0x1007"
definition HCI_CMND_CLOSE_SOCKET :: u16 where "HCI_CMND_CLOSE_SOCKET = 0x100B"

subsection \<open>The byte link\<close>

definition hci_transfer :: "u8 \<Rightarrow> hci \<Rightarrow> u8 \<times> hci" where
  "hci_transfer out s = (miso s (length (mosi s)), s\<lparr>mosi := mosi s @ [out]\<rparr>)"

text \<open>A transfer whose received byte the caller drops.\<close>

definition hci_put :: "u8 \<Rightarrow> hci \<Rightarrow> hci" where
  "hci_put out s = snd (hci_transfer out s)"

definition millis :: "hci \<Rightarrow> u32 \<times> hci" where
  "millis s = (clock s (clock_reads s), s\<lparr>clock_reads := Suc (clock_reads s)\<rparr>)"

definition wifi_callback :: "u16 \<Rightarrow> u32 \<Rightarrow> hci \<Rightarrow> hci" where
  "wifi_callback event arg s = s\<lparr>callbacks := callbacks s @ [(event, arg)]\<rparr>"

subsection \<open>Bounded field codec\<close>

definition hci_read_u8 :: "hci \<Rightarrow> u8 \<times> hci" where
  "hci_read_u8 s =
     (if 0 < hci_payload_size s
      then hci_transfer 0 (s\<lparr>hci_payload_size := hci_payload_size s - 1\<rparr>)
      else (0, s))"

definition hci_read_u16_le :: "hci \<Rightarrow> u16 \<times> hci" where
  "hci_read_u16_le s =
     (let (b0, s1) = hci_read_u8 s;
          (b1, s2) = hci_read_u8 s1
      in (ucast b0 OR push_bit 8 (ucast b1), s2))"

definition hci_read_u32_le :: "hci \<Rightarrow> u32 \<times> hci" where
  "hci_read_u32_le s =
     (let (b0, s1) = hci_read_u8 s;
          (b1, s2) = hci_read_u8 s1;
          (b2, s3) = hci_read_u8 s2;
          (b3, s4) = hci_read_u8 s3
      in (ucast b0 OR push_bit 8 (ucast b1) OR push_bit 16 (ucast b2) OR push_bit 24 (ucast b3),
          s4))"

text \<open>\<^verbatim>\<open>hci_read_array\<close> returns the bytes it stores at \<^verbatim>\<open>data[0]\<close>, \<^verbatim>\<open>data[1]\<close>, ...\<close>

primrec hci_read_array :: "nat \<Rightarrow> hci \<Rightarrow> u8 list \<times> hci" where
  "hci_read_array 0 s = ([], s)"
| "hci_read_array (Suc n) s =
     (let (b, s1) = hci_read_u8 s;
          (bs, s2) = hci_read_array n s1
      in (b # bs, s2))"

definition hci_write_u8 :: "u8 \<Rightarrow> hci \<Rightarrow> hci" where
  "hci_write_u8 v s =
     (if 0 < hci_payload_size s
      then hci_put v (s\<lparr>hci_payload_size := hci_payload_size s - 1\<rparr>)
      else s)"

definition hci_write_u16_le :: "u16 \<Rightarrow> hci \<Rightarrow> hci" where
  "hci_write_u16_le v s =
     hci_write_u8 (ucast (drop_bit 8 v AND 0xff)) (hci_write_u8 (ucast (v AND 0xff)) s)"

definition hci_write_u32_le :: "u32 \<Rightarrow> hci \<Rightarrow> hci" where
  "hci_write_u32_le v s =
     hci_write_u8 (ucast (drop_bit 24 v AND 0xff))
       (hci_write_u8 (ucast (drop_bit 16 v AND 0xff))
         (hci_write_u8 (ucast (drop_bit 8 v AND 0xff))
           (hci_write_u8 (ucast (v AND 0xff)) s)))"

primrec hci_write_array :: "u8 list \<Rightarrow> hci \<Rightarrow> hci" where
  "hci_write_array [] s = s"
| "hci_write_array (b # bs) s = hci_write_array bs (hci_write_u8 b s)"

subsection \<open>Receive transactions\<close>

definition hci_begin_receive :: "hci \<Rightarrow> hci" where
  "hci_begin_receive s =
     (let s1 = hci_put 0 (hci_put 0 (hci_put HCI_READ (s\<lparr>cs_pin := LOW\<rparr>)));
          (p0, s2) = hci_transfer 0 s1;
          (p1, s3) = hci_transfer 0 s2
      in s3\<lparr>hci_payload_size := push_bit 8 (ucast p0) OR ucast p1\<rparr>)"

text \<open>The loop \<^verbatim>\<open>while (hci_payload_size) hci_read_u8();\<close> of \<^verbatim>\<open>hci_end_receive\<close>.\<close>

function discard_unread :: "hci \<Rightarrow> hci" where
  "discard_unread s =
     (if hci_payload_size s \<noteq> 0 then discard_unread (snd (hci_read_u8 s)) else s)"
  by pat_completeness auto
termination
proof (relation "measure (\<lambda>s. unat (hci_payload_size s))")
  show "wf (measure (\<lambda>s. unat (hci_payload_size s)))" by simp
next
  fix s :: hci
  assume nz: "hci_payload_size s \<noteq> 0"
  then have pos: "0 < hci_payload_size s" by (simp add: word_neq_0_conv)
  have "unat (hci_payload_size s - 1) < unat (hci_payload_size s)"
    using nz by (simp add: unat_minus_one unat_gt_0)
  with pos show "(snd (hci_read_u8 s), s) \<in> measure (\<lambda>s. unat (hci_payload_size s))"
    by (simp add: hci_read_u8_def hci_transfer_def)
qed

declare discard_unread.simps [simp del]

text \<open>The loop \<^verbatim>\<open>while (digitalRead(CC3K_IRQ_PIN) == LOW);\<close>: the readings left over.\<close>

fun wait_irq_deassert :: "level list \<Rightarrow> level list option" where
  "wait_irq_deassert [] = None"
| "wait_irq_deassert (LOW # ps) = wait_irq_deassert ps"
| "wait_irq_deassert (HIGH # ps) = Some ps"

definition hci_end_receive :: "hci \<Rightarrow> hci option" where
  "hci_end_receive s =
     (let s1 = (discard_unread s)\<lparr>cs_pin := HIGH\<rparr>
      in case wait_irq_deassert (irq_reads s1) of
           None \<Rightarrow> None
         | Some ps \<Rightarrow> Some (s1\<lparr>irq_reads := ps\<rparr>))"

subsection \<open>The interrupt dispatcher\<close>

text \<open>
  The body of the \<^verbatim>\<open>for\<close> loop of the "buffers freed" case runs \<open>fce_count\<close> times;
  the \<^verbatim>\<open>uint8_t\<close> counter takes the sum of itself and the 16-bit count, cut to 8 bits.
\<close>

primrec free_buff_loop :: "nat \<Rightarrow> hci \<Rightarrow> hci" where
  "free_buff_loop 0 s = s"
| "free_buff_loop (Suc n) s =
     (let (u, s1) = hci_read_u16_le s;
          (c, s2) = hci_read_u16_le s1
      in free_buff_loop n
           (s2\<lparr>hci_available_buffer_count := hci_available_buffer_count s2 + ucast c\<rparr>))"

text \<open>The \<^verbatim>\<open>switch\<close> of \<^verbatim>\<open>hci_dispatch_event\<close>: the value left in \<open>arg\<close> and the state.\<close>

definition unsolicited_event :: "tinyhci_h \<Rightarrow> u16 \<Rightarrow> hci \<Rightarrow> u32 \<times> hci" where
  "unsolicited_event K rx_event_type s =
     (if rx_event_type = HCI_EVNT_WLAN_UNSOL_CONNECT K then
        (0, s\<lparr>wifi_connected := 1\<rparr>)
      else if rx_event_type = HCI_EVNT_WLAN_UNSOL_DISCONNECT K then
        (0, s\<lparr>wifi_connected := 0, wifi_dhcp := 0\<rparr>)
      else if rx_event_type = HCI_EVNT_WLAN_UNSOL_DHCP K then
        (let (st, s1) = hci_read_u8 (s\<lparr>wifi_dhcp := 1\<rparr>);
             (a3, s2) = hci_read_u8 s1;
             (a2, s3) = hci_read_u8 s2;
             (a1, s4) = hci_read_u8 s3;
             (a0, s5) = hci_read_u8 s4
         in (0, s5\<lparr>ip_addr := [a0, a1, a2, a3]\<rparr>))
      else if rx_event_type = HCI_EVNT_WLAN_UNSOL_TCP_CLOSE_WAIT K then
        (let (st, s1) = hci_read_u8 s
         in hci_read_u32_le s1)
      else if rx_event_type = HCI_EVNT_DATA_UNSOL_FREE_BUFF K then
        (let (st, s1) = hci_read_u8 s;
             (fce_count, s2) = hci_read_u16_le s1
         in (0, free_buff_loop (unat fce_count) s2))
      else (0, s))"

definition hci_dispatch_event :: "tinyhci_h \<Rightarrow> hci \<Rightarrow> hci option" where
  "hci_dispatch_event K s =
     (let (rx_event_type, s1) = hci_read_u16_le s;
          (rx_args_size, s2) = hci_read_u8 s1
      in if rx_event_type = hci_pending_event s2 then
           Some (s2\<lparr>hci_pending_event_available := 1\<rparr>)
         else
           (let (arg, s3) = unsolicited_event K rx_event_type s2
            in hci_end_receive (wifi_callback rx_event_type arg s3)))"

primrec skip_args :: "nat \<Rightarrow> hci \<Rightarrow> hci" where
  "skip_args 0 s = s"
| "skip_args (Suc n) s = skip_args n (snd (hci_read_u8 s))"

definition hci_dispatch_data :: "hci \<Rightarrow> hci" where
  "hci_dispatch_data s =
     (let (rx_data_type, s1) = hci_read_u8 s;
          (rx_args_size, s2) = hci_read_u8 s1;
          (rx_payload_size, s3) = hci_read_u16_le s2
      in (skip_args (unat rx_args_size) s3)\<lparr>hci_data_available := 1\<rparr>)"

definition hci_dispatch :: "tinyhci_h \<Rightarrow> hci \<Rightarrow> hci option" where
  "hci_dispatch K s =
     (let (rx_type, s1) = hci_read_u8 s
      in if rx_type = HCI_TYPE_EVNT then hci_dispatch_event K s1
         else if rx_type = HCI_TYPE_DATA then Some (hci_dispatch_data s1)
         else Some s1)"

definition hci_irq :: "tinyhci_h \<Rightarrow> hci \<Rightarrow> hci option" where
  "hci_irq K s =
     (if hci_state s = HCI_STATE_WAIT_ASSERT then Some (s\<lparr>hci_state := HCI_STATE_IDLE\<rparr>)
      else hci_dispatch K (hci_begin_receive s))"

subsection \<open>Busy-wait loops of the application thread\<close>

text \<open>
  \<^verbatim>\<open>while (cond) ;\<close> where \<open>cond\<close> may itself read the world (the clock). One
  element of the interrupt script is used up by each iteration; the loop that has not
  left when the script ends gives \<open>None\<close>.
\<close>

primrec busy_wait ::
  "tinyhci_h \<Rightarrow> (hci \<Rightarrow> bool \<times> hci) \<Rightarrow> bool list \<Rightarrow> hci \<Rightarrow> (bool list \<times> hci) option" where
  "busy_wait K cond [] s =
     (case cond s of (True, s1) \<Rightarrow> None | (False, s1) \<Rightarrow> Some ([], s1))"
| "busy_wait K cond (b # bs) s =
     (case cond s of
        (False, s1) \<Rightarrow> Some (b # bs, s1)
      | (True, s1) \<Rightarrow>
          (if b then (case hci_irq K s1 of None \<Rightarrow> None | Some s2 \<Rightarrow> busy_wait K cond bs s2)
           else busy_wait K cond bs s1))"

definition poll_while :: "tinyhci_h \<Rightarrow> (hci \<Rightarrow> bool \<times> hci) \<Rightarrow> hci \<Rightarrow> hci option" where
  "poll_while K cond s =
     (case busy_wait K cond (irqs s) s of
        None \<Rightarrow> None
      | Some (rest, s1) \<Rightarrow> Some (s1\<lparr>irqs := rest\<rparr>))"

subsection \<open>The command/response engine\<close>

text \<open>
  \<^verbatim>\<open>hci_begin_command\<close> in two steps: the handshake up to the end of the loop
  \<^verbatim>\<open>while (hci_state != HCI_STATE_IDLE);\<close>, then the header.
\<close>

definition wait_assert :: "tinyhci_h \<Rightarrow> hci \<Rightarrow> hci option" where
  "wait_assert K s =
     poll_while K (\<lambda>s. (hci_state s \<noteq> HCI_STATE_IDLE, s))
       (s\<lparr>hci_state := HCI_STATE_WAIT_ASSERT, cs_pin := LOW\<rparr>)"

definition command_header :: "u16 \<Rightarrow> u16 \<Rightarrow> hci \<Rightarrow> hci" where
  "command_header opcode argsSize s =
     (let s1 = s\<lparr>hci_pad := (if argsSize AND 1 = 0 then 1 else 0)\<rparr>;
          s2 = s1\<lparr>hci_payload_size := 4 + argsSize + ucast (hci_pad s1)\<rparr>;
          s3 = hci_put HCI_WRITE s2;
          s4 = hci_put (ucast (drop_bit 8 (hci_payload_size s3))) s3;
          s5 = hci_put (ucast (hci_payload_size s4 AND 0xff)) s4;
          s6 = hci_put 0 s5;
          s7 = hci_put 0 s6;
          s8 = hci_put HCI_TYPE_CMND s7;
          s9 = hci_put (ucast (opcode AND 0xff)) s8;
          s10 = hci_put (ucast (drop_bit 8 opcode)) s9
      in hci_put (ucast argsSize) s10)"

definition hci_begin_command :: "tinyhci_h \<Rightarrow> u16 \<Rightarrow> u16 \<Rightarrow> hci \<Rightarrow> hci option" where
  "hci_begin_command K opcode argsSize s =
     (case wait_assert K s of
        None \<Rightarrow> None
      | Some s1 \<Rightarrow> Some (command_header opcode argsSize s1))"

text \<open>
  \<^verbatim>\<open>hci_begin_data\<close>: \<open>totalSize\<close> is an \<^verbatim>\<open>int\<close>, the sum of the promoted
  \<^verbatim>\<open>uint8_t\<close> and \<^verbatim>\<open>uint16_t\<close> arguments in 16 bits.
\<close>

definition data_header :: "u16 \<Rightarrow> u8 \<Rightarrow> u16 \<Rightarrow> hci \<Rightarrow> hci" where
  "data_header opcode argsSize bufferSize s =
     (let totalSize = (ucast argsSize + bufferSize :: c_int);
          s1 = s\<lparr>hci_pad := (if totalSize AND 1 \<noteq> 0 then 1 else 0)\<rparr>;
          s2 = s1\<lparr>hci_payload_size := 4 + totalSize + ucast (hci_pad s1)\<rparr>;
          s3 = hci_put HCI_WRITE s2;
          s4 = hci_put (ucast (drop_bit 8 (hci_payload_size s3))) s3;
          s5 = hci_put (ucast (hci_payload_size s4)) s4;
          s6 = hci_put 0 s5;
          s7 = hci_put 0 s6;
          s8 = hci_put HCI_TYPE_DATA s7;
          s9 = hci_put (ucast opcode) s8;
          s10 = hci_put argsSize s9;
          s11 = hci_put (ucast totalSize) s10
      in hci_put (ucast (drop_bit 8 totalSize)) s11)"

definition hci_begin_data :: "tinyhci_h \<Rightarrow> u16 \<Rightarrow> u8 \<Rightarrow> u16 \<Rightarrow> hci \<Rightarrow> hci option" where
  "hci_begin_data K opcode argsSize bufferSize s =
     (case wait_assert K s of
        None \<Rightarrow> None
      | Some s1 \<Rightarrow> Some (data_header opcode argsSize bufferSize s1))"

text \<open>
  \<^verbatim>\<open>hci_end_command_begin_receive\<close>. \<open>arm_reply\<close> is the part before the wait loop and
  gives the deadline \<open>tmr\<close> with the state; \<open>pending_cond\<close> is the loop condition
  \<^verbatim>\<open>!hci_pending_event_available && millis() <= tmr\<close>, which reads the clock only when
  the flag is clear; \<open>await_reply\<close> is the state in which the loop is left.
\<close>

definition arm_reply :: "u16 \<Rightarrow> u32 \<Rightarrow> hci \<Rightarrow> u32 \<times> hci" where
  "arm_reply event timeout s =
     (let s1 = s\<lparr>hci_pending_event := event, hci_pending_event_available := 0,
                 hci_data_available := 0\<rparr>;
          (now, s2) = millis s1;
          tmr = now + timeout;
          s3 = (if hci_pad s2 \<noteq> 0 then hci_put 0 s2 else s2)
      in (tmr, s3\<lparr>cs_pin := HIGH\<rparr>))"

definition pending_cond :: "u32 \<Rightarrow> hci \<Rightarrow> bool \<times> hci" where
  "pending_cond tmr s =
     (if hci_pending_event_available s \<noteq> 0 then (False, s)
      else (let (now, s1) = millis s in (now \<le> tmr, s1)))"

definition await_reply :: "tinyhci_h \<Rightarrow> u16 \<Rightarrow> u32 \<Rightarrow> hci \<Rightarrow> hci option" where
  "await_reply K event timeout s =
     (let (tmr, s1) = arm_reply event timeout s in poll_while K (pending_cond tmr) s1)"

definition hci_end_command_begin_receive :: "tinyhci_h \<Rightarrow> u16 \<Rightarrow> u32 \<Rightarrow> hci \<Rightarrow> hci option" where
  "hci_end_command_begin_receive K event timeout s =
     (case await_reply K event timeout s of
        None \<Rightarrow> None
      | Some s1 \<Rightarrow>
          (let (now, s2) = millis s1
           in Some (if fst (arm_reply event timeout s) < now
                    then wifi_callback (HCI_EVNT_CC3000_LOCKED K) 0 s2 else s2)))"

definition hci_wait_data :: "tinyhci_h \<Rightarrow> hci \<Rightarrow> hci option" where
  "hci_wait_data K s = poll_while K (\<lambda>s. (hci_data_available s = 0, s)) s"

definition hci_read_status :: "hci \<Rightarrow> hci" where
  "hci_read_status s = snd (hci_read_u8 s)"

definition hci_end_command_receive_u32_result ::
  "tinyhci_h \<Rightarrow> u16 \<Rightarrow> u32 \<Rightarrow> hci \<Rightarrow> (u32 \<times> hci) option" where
  "hci_end_command_receive_u32_result K event timeout s =
     (case hci_end_command_begin_receive K event timeout s of
        None \<Rightarrow> None
      | Some s1 \<Rightarrow>
          (let (result, s2) = hci_read_u32_le (hci_read_status s1)
           in case hci_end_receive s2 of
                None \<Rightarrow> None
              | Some s3 \<Rightarrow> Some (result, s3)))"

subsection \<open>The socket API\<close>

text \<open>
  \<^verbatim>\<open>int\<close> arguments go to \<^verbatim>\<open>hci_write_u32_le\<close> sign-extended (\<open>scast\<close>); a
  \<^verbatim>\<open>uint32_t\<close> result leaves a function that returns \<^verbatim>\<open>int\<close> cut to 16 bits
  (\<open>ucast\<close>). A pointer argument is \<open>None\<close> for \<^verbatim>\<open>NULL\<close>, else the bytes found at
  its offsets.
\<close>

definition socket :: "tinyhci_h \<Rightarrow> c_long \<Rightarrow> c_long \<Rightarrow> c_long \<Rightarrow> hci \<Rightarrow> (c_int \<times> hci) option" where
  "socket K domain type protocol s =
     (case hci_begin_command K HCI_CMND_SOCKET 12 s of
        None \<Rightarrow> None
      | Some s1 \<Rightarrow>
          (let s2 = hci_write_u32_le domain s1;
               s3 = hci_write_u32_le type s2;
               s4 = hci_write_u32_le protocol s3
           in case hci_end_command_receive_u32_result K HCI_CMND_SOCKET 1000 s4 of
                None \<Rightarrow> None
              | Some (result, s5) \<Rightarrow> Some (ucast result, s5)))"

text \<open>
  \<^verbatim>\<open>recv\<close>: \<open>recv_reply\<close> runs up to the first \<^verbatim>\<open>hci_end_receive\<close> and gives
  \<open>return_length\<close>; \<open>recv_payload\<close> is the rest. The result carries the bytes stored at
  \<^verbatim>\<open>buffer[0]\<close>, \<^verbatim>\<open>buffer[1]\<close>, ... beside the returned \<^verbatim>\<open>int\<close>.
\<close>

definition recv_reply :: "tinyhci_h \<Rightarrow> c_int \<Rightarrow> c_int \<Rightarrow> c_int \<Rightarrow> hci \<Rightarrow> (c_long \<times> hci) option" where
  "recv_reply K sd sz flags s =
     (case hci_begin_command K HCI_CMND_RECV 12 s of
        None \<Rightarrow> None
      | Some s1 \<Rightarrow>
          (let s2 = hci_write_u32_le (scast sd) s1;
               s3 = hci_write_u32_le (scast sz) s2;
               s4 = hci_write_u32_le (scast flags) s3
           in case hci_end_command_begin_receive K HCI_CMND_RECV 5000 s4 of
                None \<Rightarrow> None
              | Some s5 \<Rightarrow>
                  (let s6 = hci_read_status s5;
                       (return_sd, s7) = hci_read_u32_le s6;
                       (return_length, s8) = hci_read_u32_le s7;
                       (return_flags, s9) = hci_read_u32_le s8
                   in case hci_end_receive s9 of
                        None \<Rightarrow> None
                      | Some s10 \<Rightarrow> Some (return_length, s10))))"

definition recv_payload ::
  "tinyhci_h \<Rightarrow> c_long \<Rightarrow> c_int \<Rightarrow> hci \<Rightarrow> ((c_int \<times> u8 list) \<times> hci) option" where
  "recv_payload K return_length sz s =
     (if 0 <s return_length then
        (case hci_wait_data K s of
           None \<Rightarrow> None
         | Some s1 \<Rightarrow>
             (let return_length1 =
                    (if scast sz <s return_length then scast sz else return_length);
                  (bytes, s2) = hci_read_array (nat (sint return_length1)) s1
              in case hci_end_receive s2 of
                   None \<Rightarrow> None
                 | Some s3 \<Rightarrow> Some ((ucast return_length1, bytes), s3)))
      else Some ((ucast return_length, []), s))"

definition recv ::
  "tinyhci_h \<Rightarrow> c_int \<Rightarrow> c_int \<Rightarrow> c_int \<Rightarrow> hci \<Rightarrow> ((c_int \<times> u8 list) \<times> hci) option" where
  "recv K sd sz flags s =
     (case recv_reply K sd sz flags s of
        None \<Rightarrow> None
      | Some (return_length, s1) \<Rightarrow> recv_payload K return_length sz s1)"

text \<open>
  \<^verbatim>\<open>send\<close>: \<open>wait_buffer\<close> is the loop \<^verbatim>\<open>while (hci_available_buffer_count == 0);\<close>
  and \<open>take_buffer\<close> the decrement after it.
\<close>

definition wait_buffer :: "tinyhci_h \<Rightarrow> hci \<Rightarrow> hci option" where
  "wait_buffer K s = poll_while K (\<lambda>s. (hci_available_buffer_count s = 0, s)) s"

definition take_buffer :: "hci \<Rightarrow> hci" where
  "take_buffer s = s\<lparr>hci_available_buffer_count := hci_available_buffer_count s - 1\<rparr>"

definition send ::
  "tinyhci_h \<Rightarrow> c_int \<Rightarrow> (nat \<Rightarrow> u8) \<Rightarrow> c_int \<Rightarrow> c_int \<Rightarrow> hci \<Rightarrow> (c_int \<times> hci) option" where
  "send K sd buffer sz flags s =
     (case wait_buffer K s of
        None \<Rightarrow> None
      | Some s1 \<Rightarrow>
          (case hci_begin_data K HCI_CMND_SEND 16 sz (take_buffer s1) of
             None \<Rightarrow> None
           | Some s2 \<Rightarrow>
               (let s3 = hci_write_u32_le (scast sd) s2;
                    s4 = hci_write_u32_le 12 s3;
                    s5 = hci_write_u32_le (scast sz) s4;
                    s6 = hci_write_u32_le (scast flags) s5;
                    s7 = hci_write_array (map buffer [0..<unat sz]) s6
                in case hci_end_command_begin_receive K (HCI_EVNT_SEND K) 5000 s7 of
                     None \<Rightarrow> None
                   | Some s8 \<Rightarrow>
                       (case hci_end_receive s8 of
                          None \<Rightarrow> None
                        | Some s9 \<Rightarrow> Some (sz, s9)))))"





definition connect ::
  "tinyhci_h \<Rightarrow> c_int \<Rightarrow> (nat \<Rightarrow> u8) option \<Rightarrow> c_long \<Rightarrow> hci \<Rightarrow> (c_int \<times> hci) option" where
  "connect K sd addr addrlen s =
     (case addr of
        None \<Rightarrow> Some (EFAIL K, s)
      | Some a \<Rightarrow>
          if addrlen = 0 then Some (EFAIL K, s)
          else
            (let addrlen1 = (8 :: c_long)
             in case hci_begin_command K HCI_CMND_CONNECT (ucast (12 + addrlen1)) s of
                  None \<Rightarrow> None
                | Some s1 \<Rightarrow>
                    (let s2 = hci_write_u32_le (scast sd) s1;
                         s3 = hci_write_u32_le 8 s2;
                         s4 = hci_write_u32_le addrlen1 s3;
                         s5 = hci_write_array (map a [0..<unat (ucast addrlen1 :: u16)]) s4
                     in case hci_end_command_receive_u32_result K HCI_CMND_CONNECT 10000 s5 of
                          None \<Rightarrow> None
                        | Some (result, s6) \<Rightarrow> Some (ucast result, s6))))"

subsection \<open>Auxiliary notions\<close>

text \<open>
  What the interrupt handler never writes: the scripts of the device, of the clock and of
  the interrupt line, and the variables that only the application thread sets.
\<close>

definition unchanged_by_irq :: "hci \<Rightarrow> hci \<Rightarrow> bool" where
  "unchanged_by_irq s t \<longleftrightarrow>
     miso t = miso s \<and> clock t = clock s \<and> clock_reads t = clock_reads s \<and>
     irqs t = irqs s \<and> hci_buffer_count t = hci_buffer_count s \<and>
     hci_buffer_size t = hci_buffer_size s \<and> hci_pad t = hci_pad s \<and>
     hci_pending_event t = hci_pending_event s"

text \<open>What the functions of the codec leave alone: all but the payload counter and the link.\<close>

definition off_link :: "hci \<Rightarrow> hci" where
  "off_link s = s\<lparr>hci_payload_size := 0, mosi := []\<rparr>"

text \<open>
  The setting of the worked examples: the static variables as the C start-up code leaves
  them with a silent world, sample values for the constants of the header (no general
  statement depends on them), and a device that shifts out a given list of bytes, then
  zeros.
\<close>

definition boot :: hci where
  "boot = \<lparr>wifi_connected = 0, wifi_dhcp = 0, ip_addr = [0, 0, 0, 0], hci_data_available = 0,
     hci_pending_event_available = 0, hci_pending_event = 0xffff, hci_buffer_size = 0,
     hci_buffer_count = 0, hci_available_buffer_count = 0, hci_payload_size = 0, hci_pad = 0,
     hci_state = 0, cs_pin = HIGH, mosi = [], miso = (\<lambda>n. 0), clock = (\<lambda>n. 0),
     clock_reads = 0, irq_reads = [], irqs = [], callbacks = []\<rparr>"

definition sample_h :: tinyhci_h where
  "sample_h = \<lparr>HCI_EVNT_WLAN_UNSOL_CONNECT = 0x8001, HCI_EVNT_WLAN_UNSOL_DISCONNECT = 0x8002,
     HCI_EVNT_WLAN_UNSOL_DHCP = 0x8010, HCI_EVNT_WLAN_UNSOL_TCP_CLOSE_WAIT = 0x8800,
     HCI_EVNT_DATA_UNSOL_FREE_BUFF = 0x4100, HCI_EVNT_CC3000_LOCKED = 0x9999,
     HCI_EVNT_SEND = 0x1003, EFAIL = - 1\<rparr>"

definition device :: "u8 list \<Rightarrow> nat \<Rightarrow> u8" where
  "device xs n = (if n < length xs then xs ! n else 0)"

text \<open>
  The bytes the device shifts out next, and the frame of a "buffers freed" event as it
  comes after the type byte: event code, length of the argument block, status, number of
  entries, then per entry a 16-bit field and the 16-bit count of freed buffers, all
  little-endian. \<open>freed_total\<close> is the sum of the counts.
\<close>

definition incoming :: "hci \<Rightarrow> u8 list \<Rightarrow> bool" where
  "incoming s bs \<longleftrightarrow> (\<forall>j<length bs. miso s (length (mosi s) + j) = bs ! j)"

definition le16 :: "u16 \<Rightarrow> u8 list" where
  "le16 v = [ucast v, ucast (drop_bit 8 v)]"

definition free_buff_event :: "tinyhci_h \<Rightarrow> u8 \<Rightarrow> u8 \<Rightarrow> (u16 \<times> u16) list \<Rightarrow> u8 list" where
  "free_buff_event K args_size status es =
     le16 (HCI_EVNT_DATA_UNSOL_FREE_BUFF K) @ [args_size, status] @ le16 (of_nat (length es)) @
     concat (map (\<lambda>(u, c). le16 u @ le16 c) es)"

definition freed_total :: "(u16 \<times> u16) list \<Rightarrow> nat" where
  "freed_total es = sum_list (map (\<lambda>(u, c). unat c) es)"

text \<open>
  The steps that make up a run of the driver, seen from the flow-control pool: the
  decrement of \<^verbatim>\<open>send\<close>, which comes right after its loop has found the counter
  nonzero; the dispatch of a "buffers freed" event that reports no more buffers than are
  in use; and any other step, which leaves both counters alone.
\<close>

inductive pool_step :: "tinyhci_h \<Rightarrow> hci \<Rightarrow> hci \<Rightarrow> bool" for K :: tinyhci_h where
  send_takes:
    "hci_available_buffer_count s \<noteq> 0 \<Longrightarrow> pool_step K s (take_buffer s)"
| buffers_freed:
    "incoming s (free_buff_event K args_size status es) \<Longrightarrow>
     length es < 65536 \<Longrightarrow>
     6 + 4 * length es \<le> unat (hci_payload_size s) \<Longrightarrow>
     HCI_EVNT_DATA_UNSOL_FREE_BUFF K \<noteq> hci_pending_event s \<Longrightarrow>
     HCI_EVNT_DATA_UNSOL_FREE_BUFF K \<notin>
       {HCI_EVNT_WLAN_UNSOL_CONNECT K, HCI_EVNT_WLAN_UNSOL_DISCONNECT K,
        HCI_EVNT_WLAN_UNSOL_DHCP K, HCI_EVNT_WLAN_UNSOL_TCP_CLOSE_WAIT K} \<Longrightarrow>
     hci_dispatch_event K s = Some t \<Longrightarrow>
     freed_total es \<le> unat (hci_buffer_count s) - unat (hci_available_buffer_count s) \<Longrightarrow>
     pool_step K s t"
| other:
    "hci_available_buffer_count t = hci_available_buffer_count s \<Longrightarrow>
     hci_buffer_count t = hci_buffer_count s \<Longrightarrow>
     pool_step K s t"

text \<open>
  A 32-bit value as its four bytes in little-endian order, and the requests that
  \<^verbatim>\<open>socket\<close>, \<^verbatim>\<open>connect\<close> and \<^verbatim>\<open>closesocket\<close> have put on the link when they
  turn to wait for the reply: header and arguments, starting from the state in which the
  handshake of \<^verbatim>\<open>hci_begin_command\<close> ended.
\<close>

definition le32 :: "u32 \<Rightarrow> u8 list" where
  "le32 v = [ucast v, ucast (drop_bit 8 v), ucast (drop_bit 16 v), ucast (drop_bit 24 v)]"

definition socket_request :: "c_long \<Rightarrow> c_long \<Rightarrow> c_long \<Rightarrow> hci \<Rightarrow> hci" where
  "socket_request domain type protocol s =
     hci_write_u32_le protocol (hci_write_u32_le type (hci_write_u32_le domain
       (command_header HCI_CMND_SOCKET 12 s)))"

definition connect_request :: "c_int \<Rightarrow> (nat \<Rightarrow> u8) \<Rightarrow> hci \<Rightarrow> hci" where
  "connect_request sd a s =
     hci_write_array (map a [0..<8]) (hci_write_u32_le 8 (hci_write_u32_le 8
       (hci_write_u32_le (scast sd) (command_header HCI_CMND_CONNECT 20 s))))"


text \<open>
  Frames as the device shifts them out during a read transaction, from the first byte of
  the read request on: three bytes while the request goes out, the payload length with the
  high byte first, then the payload. The payload of an event is the type byte, the event
  code, the length of the argument block and the body; that of a data message is the type
  byte, the data opcode, the length of its arguments, a 16-bit payload size, the arguments
  and the data. \<open>incoming_after n\<close> says what the device sends once \<open>n\<close> more bytes
  have been exchanged.
\<close>

definition incoming_after :: "nat \<Rightarrow> hci \<Rightarrow> u8 list \<Rightarrow> bool" where
  "incoming_after n s bs \<longleftrightarrow> (\<forall>j<length bs. miso s (length (mosi s) + n + j) = bs ! j)"

definition be16 :: "u16 \<Rightarrow> u8 list" where
  "be16 v = [ucast (drop_bit 8 v), ucast v]"

definition event_frame :: "u8 list \<Rightarrow> u16 \<Rightarrow> u8 \<Rightarrow> u8 list \<Rightarrow> u8 list" where
  "event_frame busy event args_size body =
     busy @ be16 (of_nat (4 + length body)) @ [HCI_TYPE_EVNT] @ le16 event @ [args_size] @ body"

definition data_frame :: "u8 list \<Rightarrow> u8 \<Rightarrow> u8 list \<Rightarrow> u16 \<Rightarrow> u8 list \<Rightarrow> u8 list" where
  "data_frame busy data_type args payload_size payload =
     busy @ be16 (of_nat (5 + length args + length payload)) @
     [HCI_TYPE_DATA, data_type, of_nat (length args)] @ le16 payload_size @ args @ payload"

text \<open>
  The request that \<^verbatim>\<open>recv\<close> has put on the link when it turns to wait for the
  reply, from the state in which the handshake ended.
\<close>

definition recv_request :: "c_int \<Rightarrow> c_int \<Rightarrow> c_int \<Rightarrow> hci \<Rightarrow> hci" where
  "recv_request sd sz flags s =
     hci_write_u32_le (scast flags) (hci_write_u32_le (scast sz) (hci_write_u32_le (scast sd)
       (command_header HCI_CMND_RECV 12 s)))"

text \<open>A clock that gives the listed readings in turn and then stays at the last one.\<close>

definition readings :: "u32 list \<Rightarrow> nat \<Rightarrow> u32" where
  "readings xs n = (if n < length xs then xs ! n else last xs)"

section \<open>Properties\<close>

lemmas hci_constants =
  HCI_STATE_IDLE_def HCI_STATE_WAIT_ASSERT_def HCI_READ_def HCI_WRITE_def
  HCI_TYPE_CMND_def HCI_TYPE_DATA_def HCI_TYPE_EVNT_def HCI_CMND_SEND_def
  HCI_CMND_SOCKET_def HCI_CMND_RECV_def HCI_CMND_CONNECT_def HCI_CMND_CLOSE_SOCKET_def

subsection \<open>The codec and the receive transaction\<close>


lemma unchanged_refl: "unchanged_by_irq s s"
  by (simp add: unchanged_by_irq_def)

lemma unchanged_trans: "unchanged_by_irq s t \<Longrightarrow> unchanged_by_irq t u \<Longrightarrow> unchanged_by_irq s u"
  by (simp add: unchanged_by_irq_def)

lemma hci_read_u8_eq:
  "hci_read_u8 s =
     (if hci_payload_size s = 0 then (0, s)
      else (miso s (length (mosi s)),
            s\<lparr>hci_payload_size := hci_payload_size s - 1, mosi := mosi s @ [0]\<rparr>))"
  by (simp add: hci_read_u8_def hci_transfer_def word_neq_0_conv)

lemma discard_unread_eq:
  "unat (hci_payload_size s) = n \<Longrightarrow>
   discard_unread s = s\<lparr>hci_payload_size := 0, mosi := mosi s @ replicate n 0\<rparr>"
proof (induction n arbitrary: s)
  case 0
  then have z: "hci_payload_size s = 0" by (simp add: unat_eq_0)
  then show ?case by (subst discard_unread.simps) simp
next
  case (Suc n)
  then have nz: "hci_payload_size s \<noteq> 0" by auto
  let ?s1 = "s\<lparr>hci_payload_size := hci_payload_size s - 1, mosi := mosi s @ [0]\<rparr>"
  have "unat (hci_payload_size ?s1) = n"
    using Suc.prems nz by (simp add: unat_minus_one)
  from Suc.IH [OF this] nz show ?case
    by (subst discard_unread.simps) (simp add: hci_read_u8_eq replicate_append_same)
qed

lemma wait_irq_deassert_None: "wait_irq_deassert ps = None \<longleftrightarrow> HIGH \<notin> set ps"
  by (induction ps rule: wait_irq_deassert.induct) auto

lemma hci_end_receive_eq:
  "hci_end_receive s =
     (case wait_irq_deassert (irq_reads s) of
        None \<Rightarrow> None
      | Some ps \<Rightarrow>
          Some (s\<lparr>hci_payload_size := 0,
                  mosi := mosi s @ replicate (unat (hci_payload_size s)) 0,
                  cs_pin := HIGH, irq_reads := ps\<rparr>))"
  by (simp add: hci_end_receive_def discard_unread_eq [OF refl] split: option.splits)

lemma hci_end_receive_None: "hci_end_receive s = None \<longleftrightarrow> HIGH \<notin> set (irq_reads s)"
  using wait_irq_deassert_None [of "irq_reads s"]
  by (cases "wait_irq_deassert (irq_reads s)") (simp_all add: hci_end_receive_eq)

lemma off_link_read_u8 [simp]: "off_link (snd (hci_read_u8 s)) = off_link s"
  by (simp add: hci_read_u8_eq off_link_def)

lemma off_link_read_u16 [simp]: "off_link (snd (hci_read_u16_le s)) = off_link s"
  by (simp add: hci_read_u16_le_def split_def Let_def)

lemma off_link_read_u32 [simp]: "off_link (snd (hci_read_u32_le s)) = off_link s"
  by (simp add: hci_read_u32_le_def split_def Let_def)

lemma off_link_read_array [simp]: "off_link (snd (hci_read_array n s)) = off_link s"
  by (induction n arbitrary: s) (simp_all add: split_def Let_def)

lemma off_link_skip_args [simp]: "off_link (skip_args n s) = off_link s"
  by (induction n arbitrary: s) simp_all

lemma off_link_put [simp]: "off_link (hci_put b s) = off_link s"
  by (simp add: hci_put_def hci_transfer_def off_link_def)

lemma off_link_write_u8 [simp]: "off_link (hci_write_u8 b s) = off_link s"
  by (simp add: hci_write_u8_def hci_put_def hci_transfer_def off_link_def)

lemma off_link_write_u32 [simp]: "off_link (hci_write_u32_le v s) = off_link s"
  by (simp add: hci_write_u32_le_def)

lemma off_link_write_array [simp]: "off_link (hci_write_array bs s) = off_link s"
  by (induction bs arbitrary: s) simp_all

lemma off_link_fields:
  assumes "off_link t = off_link s"
  shows "miso t = miso s" "clock t = clock s" "clock_reads t = clock_reads s"
    "irqs t = irqs s" "irq_reads t = irq_reads s" "callbacks t = callbacks s"
    "cs_pin t = cs_pin s" "hci_state t = hci_state s" "hci_pad t = hci_pad s"
    "hci_buffer_count t = hci_buffer_count s" "hci_buffer_size t = hci_buffer_size s"
    "hci_available_buffer_count t = hci_available_buffer_count s"
    "hci_pending_event t = hci_pending_event s"
    "hci_pending_event_available t = hci_pending_event_available s"
    "hci_data_available t = hci_data_available s"
    "wifi_connected t = wifi_connected s" "wifi_dhcp t = wifi_dhcp s" "ip_addr t = ip_addr s"
proof -
  have sel: "f (off_link t) = f (off_link s)" for f :: "hci \<Rightarrow> 'a"
    using assms by simp
  show "miso t = miso s" using sel [of miso] by (simp add: off_link_def)
  show "clock t = clock s" using sel [of clock] by (simp add: off_link_def)
  show "clock_reads t = clock_reads s" using sel [of clock_reads] by (simp add: off_link_def)
  show "irqs t = irqs s" using sel [of irqs] by (simp add: off_link_def)
  show "irq_reads t = irq_reads s" using sel [of irq_reads] by (simp add: off_link_def)
  show "callbacks t = callbacks s" using sel [of callbacks] by (simp add: off_link_def)
  show "cs_pin t = cs_pin s" using sel [of cs_pin] by (simp add: off_link_def)
  show "hci_state t = hci_state s" using sel [of hci_state] by (simp add: off_link_def)
  show "hci_pad t = hci_pad s" using sel [of hci_pad] by (simp add: off_link_def)
  show "hci_buffer_count t = hci_buffer_count s"
    using sel [of hci_buffer_count] by (simp add: off_link_def)
  show "hci_buffer_size t = hci_buffer_size s"
    using sel [of hci_buffer_size] by (simp add: off_link_def)
  show "hci_available_buffer_count t = hci_available_buffer_count s"
    using sel [of hci_available_buffer_count] by (simp add: off_link_def)
  show "hci_pending_event t = hci_pending_event s"
    using sel [of hci_pending_event] by (simp add: off_link_def)
  show "hci_pending_event_available t = hci_pending_event_available s"
    using sel [of hci_pending_event_available] by (simp add: off_link_def)
  show "hci_data_available t = hci_data_available s"
    using sel [of hci_data_available] by (simp add: off_link_def)
  show "wifi_connected t = wifi_connected s" using sel [of wifi_connected] by (simp add: off_link_def)
  show "wifi_dhcp t = wifi_dhcp s" using sel [of wifi_dhcp] by (simp add: off_link_def)
  show "ip_addr t = ip_addr s" using sel [of ip_addr] by (simp add: off_link_def)
qed

lemma free_buff_loop_frame:
  "unchanged_by_irq s (free_buff_loop n s) \<and>
   callbacks (free_buff_loop n s) = callbacks s \<and> irq_reads (free_buff_loop n s) = irq_reads s"
proof (induction n arbitrary: s)
  case 0
  show ?case by (simp add: unchanged_refl)
next
  case (Suc n)
  let ?s2 = "snd (hci_read_u16_le (snd (hci_read_u16_le s)))"
  have "off_link ?s2 = off_link s" by simp
  note f = off_link_fields [OF this]
  show ?case
    using Suc.IH [of "?s2\<lparr>hci_available_buffer_count :=
        hci_available_buffer_count ?s2 + ucast (fst (hci_read_u16_le (snd (hci_read_u16_le s))))\<rparr>"]
    by (simp add: split_def Let_def unchanged_by_irq_def f)
qed

lemma unsolicited_event_frame:
  "unchanged_by_irq s (snd (unsolicited_event K e s)) \<and>
   callbacks (snd (unsolicited_event K e s)) = callbacks s \<and>
   irq_reads (snd (unsolicited_event K e s)) = irq_reads s"
proof -
  let ?r5 = "snd (hci_read_u8 (snd (hci_read_u8 (snd (hci_read_u8 (snd (hci_read_u8
               (snd (hci_read_u8 (s\<lparr>wifi_dhcp := 1\<rparr>))))))))))"
  have "off_link ?r5 = off_link (s\<lparr>wifi_dhcp := 1\<rparr>)" by simp
  note f5 = off_link_fields [OF this]
  let ?t = "snd (hci_read_u32_le (snd (hci_read_u8 s)))"
  have "off_link ?t = off_link s" by simp
  note ft = off_link_fields [OF this]
  let ?b = "snd (hci_read_u16_le (snd (hci_read_u8 s)))"
  have "off_link ?b = off_link s" by simp
  note fb = off_link_fields [OF this]
  show ?thesis
    using free_buff_loop_frame [of ?b "unat (fst (hci_read_u16_le (snd (hci_read_u8 s))))"]
    by (simp add: unsolicited_event_def split_def Let_def unchanged_by_irq_def f5 ft fb)
qed


lemma unchanged_off_link:
  assumes "off_link t = off_link s"
  shows "unchanged_by_irq s t"
  unfolding unchanged_by_irq_def using off_link_fields [OF assms] by simp

lemma hci_end_receive_frame:
  assumes "hci_end_receive s = Some t"
  shows "unchanged_by_irq s t \<and> callbacks t = callbacks s \<and>
   hci_available_buffer_count t = hci_available_buffer_count s \<and>
   hci_payload_size t = 0 \<and> cs_pin t = HIGH"
proof -
  from assms obtain ps where
    "t = s\<lparr>hci_payload_size := 0,
           mosi := mosi s @ replicate (unat (hci_payload_size s)) 0,
           cs_pin := HIGH, irq_reads := ps\<rparr>"
    by (cases "wait_irq_deassert (irq_reads s)") (auto simp: hci_end_receive_eq)
  then show ?thesis by (simp add: unchanged_by_irq_def)
qed

lemma hci_dispatch_event_frame:
  assumes "hci_dispatch_event K s = Some t"
  shows "unchanged_by_irq s t"
proof -
  let ?s2 = "snd (hci_read_u8 (snd (hci_read_u16_le s)))"
  let ?e = "fst (hci_read_u16_le s)"
  have "off_link ?s2 = off_link s" by simp
  then have u2: "unchanged_by_irq s ?s2" by (rule unchanged_off_link)
  show ?thesis
  proof (cases "?e = hci_pending_event ?s2")
    case True
    with assms have "t = ?s2\<lparr>hci_pending_event_available := 1\<rparr>"
      by (simp add: hci_dispatch_event_def split_def Let_def)
    with u2 show ?thesis by (simp add: unchanged_by_irq_def)
  next
    case False
    let ?s3 = "snd (unsolicited_event K ?e ?s2)"
    let ?s4 = "wifi_callback ?e (fst (unsolicited_event K ?e ?s2)) ?s3"
    from False assms have er: "hci_end_receive ?s4 = Some t"
      by (simp add: hci_dispatch_event_def split_def Let_def)
    have u3: "unchanged_by_irq ?s2 ?s3" using unsolicited_event_frame [of ?s2 K ?e] by simp
    have u4: "unchanged_by_irq ?s3 ?s4" by (simp add: unchanged_by_irq_def wifi_callback_def)
    from hci_end_receive_frame [OF er] have u5: "unchanged_by_irq ?s4 t" by simp
    from u2 u3 u4 u5 show ?thesis by (blast intro: unchanged_trans)
  qed
qed

lemma hci_begin_receive_eq:
  "hci_begin_receive s =
     s\<lparr>cs_pin := LOW, mosi := mosi s @ [HCI_READ, 0, 0, 0, 0],
        hci_payload_size :=
          push_bit 8 (ucast (miso s (length (mosi s) + 3))) OR
          ucast (miso s (length (mosi s) + 4))\<rparr>"
proof -
  have n3: "length (mosi s) + 3 = Suc (Suc (Suc (length (mosi s))))" by simp
  have n4: "length (mosi s) + 4 = Suc (Suc (Suc (Suc (length (mosi s)))))" by simp
  show ?thesis
    unfolding n3 n4
    by (simp add: hci_begin_receive_def hci_put_def hci_transfer_def Let_def split_def)
qed

lemma hci_dispatch_data_frame: "unchanged_by_irq s (hci_dispatch_data s)"
proof -
  let ?s3 = "snd (hci_read_u16_le (snd (hci_read_u8 (snd (hci_read_u8 s)))))"
  let ?n = "unat (fst (hci_read_u8 (snd (hci_read_u8 s))))"
  have "off_link (skip_args ?n ?s3) = off_link s" by simp
  from off_link_fields [OF this] show ?thesis
    by (simp add: hci_dispatch_data_def split_def Let_def unchanged_by_irq_def)
qed

lemma hci_dispatch_frame:
  assumes "hci_dispatch K s = Some t"
  shows "unchanged_by_irq s t"
proof -
  let ?s1 = "snd (hci_read_u8 s)"
  let ?ty = "fst (hci_read_u8 s)"
  have "off_link ?s1 = off_link s" by simp
  then have u1: "unchanged_by_irq s ?s1" by (rule unchanged_off_link)
  have d: "hci_dispatch K s =
      (if ?ty = HCI_TYPE_EVNT then hci_dispatch_event K ?s1
       else if ?ty = HCI_TYPE_DATA then Some (hci_dispatch_data ?s1) else Some ?s1)"
    by (simp add: hci_dispatch_def split_def)
  show ?thesis
  proof (cases "?ty = HCI_TYPE_EVNT")
    case True
    with d assms have ev: "hci_dispatch_event K ?s1 = Some t" by simp
    from u1 hci_dispatch_event_frame [OF ev] show ?thesis by (rule unchanged_trans)
  next
    case False
    show ?thesis
    proof (cases "?ty = HCI_TYPE_DATA")
      case True
      with False d assms have "t = hci_dispatch_data ?s1" by simp
      with u1 hci_dispatch_data_frame [of ?s1] show ?thesis by (simp add: unchanged_trans)
    next
      case nd: False
      with False d assms have "t = ?s1" by simp
      with u1 show ?thesis by simp
    qed
  qed
qed

lemma hci_irq_frame:
  assumes "hci_irq K s = Some t"
  shows "unchanged_by_irq s t"
proof (cases "hci_state s = HCI_STATE_WAIT_ASSERT")
  case True
  with assms show ?thesis by (auto simp: hci_irq_def unchanged_by_irq_def)
next
  case False
  with assms have d: "hci_dispatch K (hci_begin_receive s) = Some t" by (simp add: hci_irq_def)
  have "unchanged_by_irq s (hci_begin_receive s)"
    by (simp add: hci_begin_receive_eq unchanged_by_irq_def)
  with hci_dispatch_frame [OF d] show ?thesis by (blast intro: unchanged_trans)
qed

subsection \<open>Busy-wait loops: general facts\<close>

lemma busy_wait_leave:
  "cond s = (False, s1) \<Longrightarrow> busy_wait K cond bs s = Some (bs, s1)"
  by (cases bs) simp_all

lemma busy_wait_exit:
  "busy_wait K cond bs s = Some (rest, s1) \<Longrightarrow> \<exists>s0. cond s0 = (False, s1)"
proof (induction bs arbitrary: s)
  case Nil
  then show ?case by (cases "cond s") (auto split: bool.splits)
next
  case (Cons b bs)
  obtain c t where ct: "cond s = (c, t)" by (cases "cond s")
  show ?case
  proof (cases c)
    case False
    with ct Cons.prems show ?thesis by auto
  next
    case True
    with ct Cons.prems Cons.IH show ?thesis
      by (auto split: if_splits option.splits)
  qed
qed

lemma busy_wait_invariant:
  assumes c: "\<And>s. P s \<Longrightarrow> P (snd (cond s))"
    and i: "\<And>s t. P s \<Longrightarrow> hci_irq K s = Some t \<Longrightarrow> P t"
  shows "P s \<Longrightarrow> busy_wait K cond bs s = Some (rest, s1) \<Longrightarrow> P s1"
proof (induction bs arbitrary: s)
  case Nil
  with c [of s] show ?case by (cases "cond s") (auto split: bool.splits)
next
  case (Cons b bs)
  obtain d t where ct: "cond s = (d, t)" by (cases "cond s")
  with c [of s] Cons.prems have Pt: "P t" by simp
  show ?case
  proof (cases d)
    case False
    with ct Cons.prems Pt show ?thesis by auto
  next
    case True
    show ?thesis
    proof (cases b)
      case False
      with True ct Cons.prems have "busy_wait K cond bs t = Some (rest, s1)" by simp
      from Cons.IH [OF Pt this] show ?thesis .
    next
      case b: True
      with True ct Cons.prems obtain u where u: "hci_irq K t = Some u"
        and r: "busy_wait K cond bs u = Some (rest, s1)"
        by (auto split: option.splits)
      from i [OF Pt u] have "P u" .
      from Cons.IH [OF this r] show ?thesis .
    qed
  qed
qed




subsection \<open>Reading past the declared length\<close>

lemma hci_read_array_zero:
  "hci_payload_size s = 0 \<Longrightarrow> hci_read_array k s = (replicate k 0, s)"
  by (induction k) (simp_all add: hci_read_u8_def)

lemma hci_read_array_all:
  "unat (hci_payload_size s) = n \<Longrightarrow>
   hci_read_array (n + k) s =
     (map (\<lambda>i. miso s (length (mosi s) + i)) [0..<n] @ replicate k 0,
      s\<lparr>hci_payload_size := 0, mosi := mosi s @ replicate n 0\<rparr>)"
proof (induction n arbitrary: s)
  case 0
  then have z: "hci_payload_size s = 0" by (simp add: unat_eq_0)
  then have "s\<lparr>hci_payload_size := 0, mosi := mosi s @ replicate 0 0\<rparr> = s" by simp
  with z show ?case by (simp add: hci_read_array_zero)
next
  case (Suc n)
  then have nz: "hci_payload_size s \<noteq> 0" by auto
  let ?s1 = "s\<lparr>hci_payload_size := hci_payload_size s - 1, mosi := mosi s @ [0]\<rparr>"
  have "unat (hci_payload_size ?s1) = n"
    using Suc.prems nz by (simp add: unat_minus_one)
  from Suc.IH [OF this] nz show ?case
    by (simp add: hci_read_u8_eq upt_conv_Cons map_Suc_upt [symmetric] replicate_append_same
        del: upt_Suc)
qed

text \<open>
  C6. With the counter at zero \<^verbatim>\<open>hci_read_u8\<close> returns 0 and leaves the whole state,
  link included, as it was, so that every further call does the same; with a positive
  counter it makes one transfer and takes exactly one off the counter. Whatever length
  the frame declares, reading \<open>k\<close> bytes more than that gives the frame's bytes followed
  by \<open>k\<close> zeros, after as many transfers as the frame is long, with the counter at zero.
\<close>

theorem hci_read_u8_floor:
  "hci_read_u8 s =
     (if hci_payload_size s = 0 then (0, s)
      else (miso s (length (mosi s)),
            s\<lparr>hci_payload_size := hci_payload_size s - 1, mosi := mosi s @ [0]\<rparr>)) \<and>
   (hci_payload_size s \<noteq> 0 \<longrightarrow>
      unat (hci_payload_size s - 1) = unat (hci_payload_size s) - 1) \<and>
   hci_read_array (unat (hci_payload_size s) + k) s =
     (map (\<lambda>i. miso s (length (mosi s) + i)) [0..<unat (hci_payload_size s)] @ replicate k 0,
      s\<lparr>hci_payload_size := 0, mosi := mosi s @ replicate (unat (hci_payload_size s)) 0\<rparr>)"
  using hci_read_u8_eq [of s] hci_read_array_all [OF refl, of s k]
  by (simp add: unat_minus_one)

theorem hci_read_u8_floor_witness:
  "hci_payload_size (boot\<lparr>hci_payload_size := 2, miso := device [7, 9]\<rparr>) \<noteq> 0 \<and>
   unat (hci_payload_size (boot\<lparr>hci_payload_size := 2, miso := device [7, 9]\<rparr>) - 1) = 1 \<and>
   fst (hci_read_array 5 (boot\<lparr>hci_payload_size := 2, miso := device [7, 9]\<rparr>)) =
     [7, 9, 0, 0, 0]"
proof -
  let ?s = "boot\<lparr>hci_payload_size := 2, miso := device [7, 9]\<rparr>"
  have p: "hci_payload_size ?s = 2" by simp
  have u: "unat (hci_payload_size ?s) = 2" by simp
  have l: "[0..<2::nat] = [0, 1]" by (simp add: upt_rec)
  have m: "mosi ?s = []" "miso ?s = device [7, 9]" by (simp_all add: boot_def)
  have r: "replicate 3 (0::u8) = [0, 0, 0]" by (simp add: numeral_3_eq_3)
  from hci_read_u8_floor [of ?s 3]
  have "hci_read_array (unat (hci_payload_size ?s) + 3) ?s =
     (map (\<lambda>i. miso ?s (length (mosi ?s) + i)) [0..<unat (hci_payload_size ?s)] @ replicate 3 0,
      ?s\<lparr>hci_payload_size := 0, mosi := mosi ?s @ replicate (unat (hci_payload_size ?s)) 0\<rparr>)"
    by blast
  then have "fst (hci_read_array 5 ?s) = [7, 9, 0, 0, 0]"
    unfolding u l m r by (simp add: device_def)
  with p show ?thesis by simp
qed

subsection \<open>Dispatch of an incoming event\<close>

lemma hci_dispatch_event_eq:
  "hci_dispatch_event K s =
     (if fst (hci_read_u16_le s) = hci_pending_event s then
        Some ((snd (hci_read_u8 (snd (hci_read_u16_le s))))\<lparr>hci_pending_event_available := 1\<rparr>)
      else
        hci_end_receive
          (wifi_callback (fst (hci_read_u16_le s))
             (fst (unsolicited_event K (fst (hci_read_u16_le s))
                    (snd (hci_read_u8 (snd (hci_read_u16_le s))))))
             (snd (unsolicited_event K (fst (hci_read_u16_le s))
                    (snd (hci_read_u8 (snd (hci_read_u16_le s))))))))"
proof -
  have "off_link (snd (hci_read_u8 (snd (hci_read_u16_le s)))) = off_link s" by simp
  from off_link_fields(13) [OF this] show ?thesis
    by (simp add: hci_dispatch_event_def split_def Let_def)
qed

lemma header_reads_link:
  "length (mosi (snd (hci_read_u8 (snd (hci_read_u16_le s))))) \<le> length (mosi s) + 3"
  by (simp add: hci_read_u16_le_def hci_read_u8_eq split_def Let_def)

subsection \<open>Reading what the device sends\<close>

lemma incoming_Nil [simp]: "incoming s []"
  by (simp add: incoming_def)

lemma read_u8_incoming:
  assumes "incoming s (b # bs)" "hci_payload_size s \<noteq> 0"
  shows "fst (hci_read_u8 s) = b" "incoming (snd (hci_read_u8 s)) bs"
    "unat (hci_payload_size (snd (hci_read_u8 s))) = unat (hci_payload_size s) - 1"
proof -
  from assms(1) have "miso s (length (mosi s) + 0) = (b # bs) ! 0"
    unfolding incoming_def by blast
  with assms(2) show "fst (hci_read_u8 s) = b" by (simp add: hci_read_u8_eq)
  have "miso s (length (mosi s) + Suc j) = (b # bs) ! Suc j" if "j < length bs" for j
    using assms(1) that unfolding incoming_def by auto
  with assms(2) show "incoming (snd (hci_read_u8 s)) bs"
    by (simp add: hci_read_u8_eq incoming_def)
  from assms(2) show "unat (hci_payload_size (snd (hci_read_u8 s))) = unat (hci_payload_size s) - 1"
    by (simp add: hci_read_u8_eq unat_minus_one)
qed

lemma le16_join: "ucast (ucast v :: u8) OR push_bit 8 (ucast (ucast (drop_bit 8 v) :: u8)) = (v :: u16)"
  by (rule bit_word_eqI) (auto simp: bit_simps)

lemma read_u16_incoming:
  assumes "incoming s (le16 v @ bs)" "2 \<le> unat (hci_payload_size s)"
  shows "fst (hci_read_u16_le s) = v" "incoming (snd (hci_read_u16_le s)) bs"
    "unat (hci_payload_size (snd (hci_read_u16_le s))) = unat (hci_payload_size s) - 2"
proof -
  let ?s1 = "snd (hci_read_u8 s)"
  from assms(2) have nz: "hci_payload_size s \<noteq> 0" by auto
  from assms(1) have i0: "incoming s (ucast v # ucast (drop_bit 8 v) # bs)"
    by (simp add: le16_def)
  note r1 = read_u8_incoming [OF i0 nz]
  from r1(3) assms(2) have nz1: "hci_payload_size ?s1 \<noteq> 0" by auto
  note r2 = read_u8_incoming [OF r1(2) nz1]
  show "fst (hci_read_u16_le s) = v"
    by (simp add: hci_read_u16_le_def split_def Let_def r1(1) r2(1) le16_join)
  show "incoming (snd (hci_read_u16_le s)) bs"
    using r2(2) by (simp add: hci_read_u16_le_def split_def Let_def)
  show "unat (hci_payload_size (snd (hci_read_u16_le s))) = unat (hci_payload_size s) - 2"
    using r2(3) r1(3) by (simp add: hci_read_u16_le_def split_def Let_def)
qed

lemma free_buff_loop_credits:
  "incoming s (concat (map (\<lambda>(u, c). le16 u @ le16 c) es)) \<Longrightarrow>
   4 * length es \<le> unat (hci_payload_size s) \<Longrightarrow>
   hci_available_buffer_count (free_buff_loop (length es) s) =
     hci_available_buffer_count s + of_nat (freed_total es)"
proof (induction es arbitrary: s)
  case Nil
  show ?case by (simp add: freed_total_def)
next
  case (Cons e es)
  obtain u c where e: "e = (u, c)" by (cases e)
  let ?rest = "concat (map (\<lambda>(u, c). le16 u @ le16 c) es)"
  let ?s1 = "snd (hci_read_u16_le s)"
  let ?s2 = "snd (hci_read_u16_le ?s1)"
  let ?s3 = "?s2\<lparr>hci_available_buffer_count := hci_available_buffer_count ?s2 + ucast c\<rparr>"
  from Cons.prems(1) e have i0: "incoming s (le16 u @ (le16 c @ ?rest))" by simp
  from Cons.prems(2) have p0: "2 \<le> unat (hci_payload_size s)" by simp
  note r1 = read_u16_incoming [OF i0 p0]
  from r1(3) Cons.prems(2) have p1: "2 \<le> unat (hci_payload_size ?s1)" by simp
  note r2 = read_u16_incoming [OF r1(2) p1]
  have "off_link ?s2 = off_link s" by simp
  note f = off_link_fields [OF this]
  have i3: "incoming ?s3 ?rest" using r2(2) by (simp add: incoming_def)
  have p3: "4 * length es \<le> unat (hci_payload_size ?s3)"
    using r2(3) r1(3) Cons.prems(2) by simp
  have step: "free_buff_loop (length (e # es)) s = free_buff_loop (length es) ?s3"
    by (simp add: split_def Let_def r2(1))
  from Cons.IH [OF i3 p3]
  have "hci_available_buffer_count (free_buff_loop (length es) ?s3) =
        hci_available_buffer_count s + ucast c + of_nat (freed_total es)"
    by (simp add: f)
  moreover have "freed_total (e # es) = unat c + freed_total es"
    by (simp add: freed_total_def e)
  ultimately show ?case
    unfolding step by (simp add: of_nat_unat)
qed



lemma unsolicited_free_buff:
  assumes "e = HCI_EVNT_DATA_UNSOL_FREE_BUFF K"
    "e \<notin> {HCI_EVNT_WLAN_UNSOL_CONNECT K, HCI_EVNT_WLAN_UNSOL_DISCONNECT K,
            HCI_EVNT_WLAN_UNSOL_DHCP K, HCI_EVNT_WLAN_UNSOL_TCP_CLOSE_WAIT K}"
  shows "unsolicited_event K e s =
     (0, free_buff_loop (unat (fst (hci_read_u16_le (snd (hci_read_u8 s)))))
           (snd (hci_read_u16_le (snd (hci_read_u8 s)))))"
proof -
  from assms(2) have ne: "e \<noteq> HCI_EVNT_WLAN_UNSOL_CONNECT K"
    "e \<noteq> HCI_EVNT_WLAN_UNSOL_DISCONNECT K" "e \<noteq> HCI_EVNT_WLAN_UNSOL_DHCP K"
    "e \<noteq> HCI_EVNT_WLAN_UNSOL_TCP_CLOSE_WAIT K" by auto
  have "unsolicited_event K e s =
     (let (st, s1) = hci_read_u8 s;
          (fce_count, s2) = hci_read_u16_le s1
      in (0, free_buff_loop (unat fce_count) s2))"
    unfolding unsolicited_event_def by (simp only: ne assms(1) [symmetric] if_False if_True refl)
  then show ?thesis by (simp add: split_def Let_def)
qed

lemma free_buff_event_adds:
  assumes inc: "incoming s (free_buff_event K args_size status es)"
    and len: "length es < 65536"
    and pay: "6 + 4 * length es \<le> unat (hci_payload_size s)"
    and uns: "HCI_EVNT_DATA_UNSOL_FREE_BUFF K \<noteq> hci_pending_event s"
    and dis: "HCI_EVNT_DATA_UNSOL_FREE_BUFF K \<notin>
           {HCI_EVNT_WLAN_UNSOL_CONNECT K, HCI_EVNT_WLAN_UNSOL_DISCONNECT K,
            HCI_EVNT_WLAN_UNSOL_DHCP K, HCI_EVNT_WLAN_UNSOL_TCP_CLOSE_WAIT K}"
    and run: "hci_dispatch_event K s = Some t"
  shows "hci_available_buffer_count t = hci_available_buffer_count s + of_nat (freed_total es)"
    and "hci_buffer_count t = hci_buffer_count s"
proof -
  let ?e = "HCI_EVNT_DATA_UNSOL_FREE_BUFF K"
  let ?entries = "concat (map (\<lambda>(u, c). le16 u @ le16 c) es)"
  let ?s1 = "snd (hci_read_u16_le s)"
  let ?s2 = "snd (hci_read_u8 ?s1)"
  let ?s3 = "snd (hci_read_u8 ?s2)"
  let ?s4 = "snd (hci_read_u16_le ?s3)"
  let ?s5 = "free_buff_loop (length es) ?s4"
  from inc have i0: "incoming s (le16 ?e @ (args_size # status # le16 (of_nat (length es)) @ ?entries))"
    by (simp add: free_buff_event_def)
  from pay have p0: "2 \<le> unat (hci_payload_size s)" by simp
  note r1 = read_u16_incoming [OF i0 p0]
  from r1(3) pay have nz1: "hci_payload_size ?s1 \<noteq> 0" by auto
  note r2 = read_u8_incoming [OF r1(2) nz1]
  from r2(3) r1(3) pay have nz2: "hci_payload_size ?s2 \<noteq> 0" by auto
  note r3 = read_u8_incoming [OF r2(2) nz2]
  from r3(3) r2(3) r1(3) pay have p3: "2 \<le> unat (hci_payload_size ?s3)" by simp
  note r4 = read_u16_incoming [OF r3(2) p3]
  from len have n: "unat (of_nat (length es) :: u16) = length es"
    by (simp add: unat_of_nat)
  from r4(3) r3(3) r2(3) r1(3) pay have p4: "4 * length es \<le> unat (hci_payload_size ?s4)"
    by simp
  have "off_link ?s4 = off_link s" by simp
  note f4 = off_link_fields [OF this]
  have credits: "hci_available_buffer_count ?s5 = hci_available_buffer_count s + of_nat (freed_total es)"
    using free_buff_loop_credits [OF r4(2) p4] by (simp add: f4)
  have count: "hci_buffer_count ?s5 = hci_buffer_count s"
    using free_buff_loop_frame [of ?s4 "length es"] by (simp add: unchanged_by_irq_def f4)
  have ev: "unsolicited_event K ?e ?s2 = (0, ?s5)"
    using unsolicited_free_buff [OF refl dis, of ?s2] by (simp add: r4(1) n)
  from run uns have "hci_end_receive (wifi_callback ?e 0 ?s5) = Some t"
    by (simp add: hci_dispatch_event_eq r1(1) ev)
  from hci_end_receive_frame [OF this]
  have "hci_available_buffer_count t = hci_available_buffer_count ?s5"
    "hci_buffer_count t = hci_buffer_count ?s5"
    by (simp_all add: wifi_callback_def unchanged_by_irq_def)
  with credits count show
    "hci_available_buffer_count t = hci_available_buffer_count s + of_nat (freed_total es)"
    "hci_buffer_count t = hci_buffer_count s"
    by simp_all
qed

text \<open>
  C8. When the device sends a "buffers freed" event that is not the awaited reply, with
  any number of entries, each a 16-bit field followed by a 16-bit count, and the frame is
  long enough to hold them, the dispatcher adds the sum of the counts to
  \<open>hci_available_buffer_count\<close>. The variable is a \<^verbatim>\<open>uint8_t\<close>: the sum is added in
  8 bits, and it is the plain sum as long as the result is below 256.
\<close>

theorem free_buff_event_credits:
  assumes "incoming s (free_buff_event K args_size status es)"
    and "length es < 65536"
    and "6 + 4 * length es \<le> unat (hci_payload_size s)"
    and "HCI_EVNT_DATA_UNSOL_FREE_BUFF K \<noteq> hci_pending_event s"
    and "HCI_EVNT_DATA_UNSOL_FREE_BUFF K \<notin>
           {HCI_EVNT_WLAN_UNSOL_CONNECT K, HCI_EVNT_WLAN_UNSOL_DISCONNECT K,
            HCI_EVNT_WLAN_UNSOL_DHCP K, HCI_EVNT_WLAN_UNSOL_TCP_CLOSE_WAIT K}"
    and "hci_dispatch_event K s = Some t"
  shows "hci_available_buffer_count t =
           hci_available_buffer_count s + of_nat (freed_total es) \<and>
         (unat (hci_available_buffer_count s) + freed_total es < 256 \<longrightarrow>
            unat (hci_available_buffer_count t) =
              unat (hci_available_buffer_count s) + freed_total es)"
proof -
  note a = free_buff_event_adds(1) [OF assms]
  have "unat (hci_available_buffer_count s + of_nat (freed_total es)) =
        unat (hci_available_buffer_count s) + freed_total es"
    if "unat (hci_available_buffer_count s) + freed_total es < 256"
    using that by (simp add: unat_word_ariths unat_of_nat)
  with a show ?thesis by simp
qed


lemma incoming_device: "mosi s = [] \<Longrightarrow> miso s = device bs \<Longrightarrow> incoming s bs"
  by (simp add: incoming_def device_def)

theorem free_buff_event_credits_witness:
  "incoming (boot\<lparr>hci_available_buffer_count := 1, hci_payload_size := 14, irq_reads := [HIGH],
              miso := device (free_buff_event sample_h 9 0 [(0, 3), (0, 5)])\<rparr>)
     (free_buff_event sample_h 9 0 [(0, 3), (0, 5)]) \<and>
   freed_total [(0, 3), (0, 5)] = 8 \<and>
   (\<exists>t. hci_dispatch_event sample_h
          (boot\<lparr>hci_available_buffer_count := 1, hci_payload_size := 14, irq_reads := [HIGH],
                miso := device (free_buff_event sample_h 9 0 [(0, 3), (0, 5)])\<rparr>) = Some t \<and>
        hci_available_buffer_count t = 9)"
proof -
  let ?es = "[(0, 3), (0, 5)] :: (u16 \<times> u16) list"
  let ?s = "boot\<lparr>hci_available_buffer_count := 1, hci_payload_size := 14, irq_reads := [HIGH],
              miso := device (free_buff_event sample_h 9 0 ?es)\<rparr>"
  have inc: "incoming ?s (free_buff_event sample_h 9 0 ?es)"
    by (rule incoming_device) (simp_all add: boot_def)
  have len: "length ?es < 65536" by simp
  have pay: "6 + 4 * length ?es \<le> unat (hci_payload_size ?s)" by simp
  have uns: "HCI_EVNT_DATA_UNSOL_FREE_BUFF sample_h \<noteq> hci_pending_event ?s"
    by (simp add: sample_h_def boot_def)
  have dis: "HCI_EVNT_DATA_UNSOL_FREE_BUFF sample_h \<notin>
       {HCI_EVNT_WLAN_UNSOL_CONNECT sample_h, HCI_EVNT_WLAN_UNSOL_DISCONNECT sample_h,
        HCI_EVNT_WLAN_UNSOL_DHCP sample_h, HCI_EVNT_WLAN_UNSOL_TCP_CLOSE_WAIT sample_h}"
    by (simp add: sample_h_def)
  have tot: "freed_total ?es = 8" by (simp add: freed_total_def)
  have "case hci_dispatch_event sample_h ?s of None \<Rightarrow> False | Some t \<Rightarrow> True"
    by code_simp
  then obtain t where run: "hci_dispatch_event sample_h ?s = Some t"
    by (cases "hci_dispatch_event sample_h ?s") simp_all
  from free_buff_event_credits [OF inc len pay uns dis run]
  have "hci_available_buffer_count t = 9" unfolding tot by (simp add: boot_def)
  with run inc tot show ?thesis by blast
qed

subsection \<open>The flow-control pool\<close>

lemma take_buffer_le:
  assumes "hci_available_buffer_count s \<le> hci_buffer_count s" "hci_available_buffer_count s \<noteq> 0"
  shows "hci_available_buffer_count (take_buffer s) \<le> hci_buffer_count (take_buffer s)"
proof -
  from assms(2) have "unat (hci_available_buffer_count s - 1) = unat (hci_available_buffer_count s) - 1"
    by (simp add: unat_minus_one)
  with assms(1) show ?thesis
    by (simp add: take_buffer_def word_le_nat_alt)
qed

lemma pool_step_invariant:
  assumes "pool_step K s t" "hci_available_buffer_count s \<le> hci_buffer_count s"
  shows "hci_available_buffer_count t \<le> hci_buffer_count t"
  using assms
proof (induction rule: pool_step.induct)
  case (send_takes s)
  then show ?case by (simp add: take_buffer_le)
next
  case (buffers_freed s args_size status es t)
  note a = free_buff_event_adds [OF buffers_freed(1-6)]
  from buffers_freed(7,8)
  have b: "unat (hci_available_buffer_count s) + freed_total es \<le> unat (hci_buffer_count s)"
    by (simp add: word_le_nat_alt)
  have "unat (hci_buffer_count s) < 256" using unsigned_less [of "hci_buffer_count s"] by simp
  with b have "unat (hci_available_buffer_count s + of_nat (freed_total es)) =
      unat (hci_available_buffer_count s) + freed_total es"
    by (simp add: unat_word_ariths unat_of_nat)
  with a b show ?case by (simp add: word_le_nat_alt)
next
  case (other t s)
  then show ?case by simp
qed

text \<open>
  C1. The driver adds whatever a "buffers freed" event reports and has no clamp, so the
  invariant \<open>hci_available_buffer_count \<le> hci_buffer_count\<close> rests on the device: it
  holds after every run made of decrements by \<^verbatim>\<open>send\<close> (each after its loop has
  seen a nonzero counter), of "buffers freed" events that report in total no more than
  the buffers then in use, and of steps that touch neither counter.
\<close>

theorem pool_invariant:
  assumes "(pool_step K)\<^sup>*\<^sup>* s t"
    and "hci_available_buffer_count s \<le> hci_buffer_count s"
  shows "hci_available_buffer_count t \<le> hci_buffer_count t"
  using assms
proof (induction rule: rtranclp_induct)
  case base
  then show ?case .
next
  case (step y z)
  from step.IH [OF step.prems] step.hyps(2) show ?case
    by (simp add: pool_step_invariant)
qed


theorem pool_invariant_witness:
  "(pool_step sample_h)\<^sup>*\<^sup>*
     (boot\<lparr>hci_buffer_count := 6, hci_available_buffer_count := 6, hci_payload_size := 10,
           irq_reads := [HIGH], miso := device (free_buff_event sample_h 5 0 [(0, 1)])\<rparr>)
     (the (hci_dispatch_event sample_h (take_buffer
       (boot\<lparr>hci_buffer_count := 6, hci_available_buffer_count := 6, hci_payload_size := 10,
             irq_reads := [HIGH], miso := device (free_buff_event sample_h 5 0 [(0, 1)])\<rparr>)))) \<and>
   hci_available_buffer_count
     (boot\<lparr>hci_buffer_count := 6, hci_available_buffer_count := 6, hci_payload_size := 10,
           irq_reads := [HIGH], miso := device (free_buff_event sample_h 5 0 [(0, 1)])\<rparr>) \<le>
   hci_buffer_count
     (boot\<lparr>hci_buffer_count := 6, hci_available_buffer_count := 6, hci_payload_size := 10,
           irq_reads := [HIGH], miso := device (free_buff_event sample_h 5 0 [(0, 1)])\<rparr>) \<and>
   hci_available_buffer_count
     (the (hci_dispatch_event sample_h (take_buffer
       (boot\<lparr>hci_buffer_count := 6, hci_available_buffer_count := 6, hci_payload_size := 10,
             irq_reads := [HIGH], miso := device (free_buff_event sample_h 5 0 [(0, 1)])\<rparr>)))) \<le>
   hci_buffer_count
     (the (hci_dispatch_event sample_h (take_buffer
       (boot\<lparr>hci_buffer_count := 6, hci_available_buffer_count := 6, hci_payload_size := 10,
             irq_reads := [HIGH], miso := device (free_buff_event sample_h 5 0 [(0, 1)])\<rparr>))))"
proof -
  let ?es = "[(0, 1)] :: (u16 \<times> u16) list"
  let ?s = "boot\<lparr>hci_buffer_count := 6, hci_available_buffer_count := 6, hci_payload_size := 10,
           irq_reads := [HIGH], miso := device (free_buff_event sample_h 5 0 ?es)\<rparr>"
  let ?s1 = "take_buffer ?s"
  have inv: "hci_available_buffer_count ?s \<le> hci_buffer_count ?s" by simp
  have "hci_available_buffer_count ?s \<noteq> 0" by simp
  then have st1: "pool_step sample_h ?s ?s1" by (rule pool_step.send_takes)
  have inc: "incoming ?s1 (free_buff_event sample_h 5 0 ?es)"
    by (rule incoming_device) (simp_all add: boot_def take_buffer_def)
  have len: "length ?es < 65536" by simp
  have pay: "6 + 4 * length ?es \<le> unat (hci_payload_size ?s1)"
    by (simp add: take_buffer_def)
  have uns: "HCI_EVNT_DATA_UNSOL_FREE_BUFF sample_h \<noteq> hci_pending_event ?s1"
    by (simp add: sample_h_def boot_def take_buffer_def)
  have dis: "HCI_EVNT_DATA_UNSOL_FREE_BUFF sample_h \<notin>
       {HCI_EVNT_WLAN_UNSOL_CONNECT sample_h, HCI_EVNT_WLAN_UNSOL_DISCONNECT sample_h,
        HCI_EVNT_WLAN_UNSOL_DHCP sample_h, HCI_EVNT_WLAN_UNSOL_TCP_CLOSE_WAIT sample_h}"
    by (simp add: sample_h_def)
  have grd: "freed_total ?es \<le> unat (hci_buffer_count ?s1) - unat (hci_available_buffer_count ?s1)"
    by (simp add: freed_total_def take_buffer_def)
  have "case hci_dispatch_event sample_h ?s1 of None \<Rightarrow> False | Some t \<Rightarrow> True"
    by code_simp
  then have run: "hci_dispatch_event sample_h ?s1 = Some (the (hci_dispatch_event sample_h ?s1))"
    by (cases "hci_dispatch_event sample_h ?s1") simp_all
  from pool_step.buffers_freed [OF inc len pay uns dis run grd]
  have st2: "pool_step sample_h ?s1 (the (hci_dispatch_event sample_h ?s1))" .
  from st1 st2 have reach: "(pool_step sample_h)\<^sup>*\<^sup>* ?s (the (hci_dispatch_event sample_h ?s1))"
    by (blast intro: rtranclp.intros)
  from pool_invariant [OF reach inv] reach inv show ?thesis by blast
qed

text \<open>
  Over every "buffers freed" event whatever it reports, the invariant fails: with all six
  buffers free, the interrupt for an event that reports one more buffer freed takes the
  counter to seven.
\<close>

theorem pool_invariant_counterexample:
  "hci_available_buffer_count
     (boot\<lparr>hci_buffer_count := 6, hci_available_buffer_count := 6, irq_reads := [HIGH],
           miso := device ([0, 0, 0, 0, 11, 4] @ free_buff_event sample_h 5 0 [(0, 1)])\<rparr>) \<le>
   hci_buffer_count
     (boot\<lparr>hci_buffer_count := 6, hci_available_buffer_count := 6, irq_reads := [HIGH],
           miso := device ([0, 0, 0, 0, 11, 4] @ free_buff_event sample_h 5 0 [(0, 1)])\<rparr>) \<and>
   \<not> Option.is_none (hci_irq sample_h
     (boot\<lparr>hci_buffer_count := 6, hci_available_buffer_count := 6, irq_reads := [HIGH],
           miso := device ([0, 0, 0, 0, 11, 4] @ free_buff_event sample_h 5 0 [(0, 1)])\<rparr>)) \<and>
   \<not> hci_available_buffer_count (the (hci_irq sample_h
     (boot\<lparr>hci_buffer_count := 6, hci_available_buffer_count := 6, irq_reads := [HIGH],
           miso := device ([0, 0, 0, 0, 11, 4] @ free_buff_event sample_h 5 0 [(0, 1)])\<rparr>))) \<le>
     hci_buffer_count (the (hci_irq sample_h
     (boot\<lparr>hci_buffer_count := 6, hci_available_buffer_count := 6, irq_reads := [HIGH],
           miso := device ([0, 0, 0, 0, 11, 4] @ free_buff_event sample_h 5 0 [(0, 1)])\<rparr>)))"
  by code_simp

subsection \<open>Padding of outbound frames\<close>

lemma and_1_even: "(w :: u16) AND 1 = 0 \<longleftrightarrow> even (unat w)"
  by (simp add: and_one_eq word_eq_iff_unsigned [where ?'a = nat] unat_mod_distrib even_iff_mod_2_eq_zero)

lemma unat_ucast_u8_u16: "unat (ucast (a :: u8) :: u16) = unat a"
  by transfer simp

lemma command_header_pad:
  "hci_pad (command_header opcode n s) = (if even (unat n) then 1 else 0)"
  by (simp add: command_header_def Let_def hci_put_def hci_transfer_def and_1_even)

lemma command_header_link:
  "length (mosi (command_header opcode n s)) = length (mosi s) + 9"
  by (simp add: command_header_def Let_def hci_put_def hci_transfer_def)

lemma data_header_pad:
  "hci_pad (data_header opcode a b s) = (if odd (unat a + unat b) then 1 else 0)"
proof -
  have u: "unat (ucast a + b :: u16) = (unat a + unat b) mod 65536"
    by (simp add: unat_word_ariths unat_ucast_u8_u16)
  have "(unat a + unat b) mod 65536 mod 2 = (unat a + unat b) mod 2"
    by (rule mod_mod_cancel) simp
  then have e: "even (unat (ucast a + b :: u16)) \<longleftrightarrow> even (unat a + unat b)"
    unfolding u by (simp only: even_iff_mod_2_eq_zero)
  have "hci_pad (data_header opcode a b s) = (if (ucast a + b :: u16) AND 1 \<noteq> 0 then 1 else 0)"
    by (simp add: data_header_def Let_def hci_put_def hci_transfer_def)
  then show ?thesis
    by (simp only: and_1_even e)
qed

lemma data_header_link:
  "length (mosi (data_header opcode a b s)) = length (mosi s) + 10"
  by (simp add: data_header_def Let_def hci_put_def hci_transfer_def)

lemma arm_reply_link:
  "mosi (snd (arm_reply event timeout s)) = mosi s @ (if hci_pad s \<noteq> 0 then [0] else [])"
  by (simp add: arm_reply_def Let_def split_def millis_def hci_put_def hci_transfer_def)

text \<open>
  C4. The pad byte makes the whole frame on the link even: the 5 bytes of the write
  header, the message header (4 bytes for a command, 5 for data), the arguments and the
  pad. So \<open>hci_pad\<close> is set when that length before padding is odd: for a command with
  \<open>n\<close> argument bytes when \<open>n\<close> is even, for data of total size \<open>m\<close> when \<open>m\<close> is odd.
  \<^verbatim>\<open>hci_end_command_begin_receive\<close> then sends one zero byte when \<open>hci_pad\<close> is set and
  nothing otherwise.
\<close>

theorem pad_rule:
  "hci_pad (command_header opcode n s) = (if odd (5 + 4 + unat n) then 1 else 0) \<and>
   length (mosi (command_header opcode n s)) = length (mosi s) + (5 + 4) \<and>
   hci_pad (data_header opcode1 a b s) = (if odd (5 + 5 + (unat a + unat b)) then 1 else 0) \<and>
   length (mosi (data_header opcode1 a b s)) = length (mosi s) + (5 + 5) \<and>
   mosi (snd (arm_reply event timeout s)) = mosi s @ (if hci_pad s \<noteq> 0 then [0] else [])"
  by (simp add: command_header_pad command_header_link data_header_pad data_header_link
      arm_reply_link)

theorem pad_rule_witness:
  "hci_pad (command_header HCI_CMND_SOCKET 12 boot) = 1 \<and>
   hci_pad (data_header HCI_CMND_SEND 16 3 boot) = 1 \<and>
   hci_pad (data_header HCI_CMND_SEND 16 4 boot) = 0 \<and>
   mosi (snd (arm_reply HCI_CMND_SOCKET 1000 (boot\<lparr>hci_pad := 1\<rparr>))) = [0]"
  using pad_rule [of HCI_CMND_SOCKET 12 boot HCI_CMND_SEND 16 3 HCI_CMND_SOCKET 1000]
    pad_rule [of HCI_CMND_SOCKET 12 boot HCI_CMND_SEND 16 4 HCI_CMND_SOCKET 1000]
    pad_rule [of HCI_CMND_SOCKET 12 "boot\<lparr>hci_pad := 1\<rparr>" HCI_CMND_SEND 16 4 HCI_CMND_SOCKET 1000]
  by (simp add: boot_def)

text \<open>
  Stated on the payload length that the code computes, 4 + \<open>n\<close>, the rule does not
  hold for commands: the 12 argument bytes of \<^verbatim>\<open>socket\<close> give 16, which is aligned,
  and the pad byte is sent all the same.
\<close>

theorem pad_rule_counterexample:
  "\<not> (hci_pad (command_header HCI_CMND_SOCKET 12 boot) \<noteq> 0 \<longleftrightarrow> odd (4 + unat (12 :: u16))) \<and>
   mosi (snd (arm_reply HCI_CMND_SOCKET 1000 (command_header HCI_CMND_SOCKET 12 boot))) =
     mosi (command_header HCI_CMND_SOCKET 12 boot) @ [0]"
  by code_simp

subsection \<open>Marshalling\<close>

lemma ucast_and_ff: "(ucast (w AND 0xff) :: u8) = ucast (w :: u32)"
proof -
  have m: "(0xff :: u32) = mask 8" by (simp add: mask_eq_exp_minus_1)
  show ?thesis unfolding m by (rule bit_word_eqI) (auto simp: bit_simps)
qed

lemma hci_write_u8_eq:
  "hci_write_u8 b s =
     (if hci_payload_size s = 0 then s
      else s\<lparr>hci_payload_size := hci_payload_size s - 1, mosi := mosi s @ [b]\<rparr>)"
  by (simp add: hci_write_u8_def hci_put_def hci_transfer_def word_neq_0_conv)

lemma hci_write_u32_le_eq:
  assumes "4 \<le> unat (hci_payload_size s)"
  shows "hci_write_u32_le v s =
     s\<lparr>hci_payload_size := hci_payload_size s - 4, mosi := mosi s @ le32 v\<rparr>"
proof -
  from assms have nz: "hci_payload_size s \<noteq> 0" "hci_payload_size s \<noteq> 1"
    "hci_payload_size s \<noteq> 2" "hci_payload_size s \<noteq> 3"
    by auto
  show ?thesis
    by (simp add: hci_write_u32_le_def hci_write_u8_eq nz le32_def ucast_and_ff)
qed

lemma hci_write_array_eq:
  "length bs \<le> unat (hci_payload_size s) \<Longrightarrow>
   hci_write_array bs s =
     s\<lparr>hci_payload_size := hci_payload_size s - of_nat (length bs), mosi := mosi s @ bs\<rparr>"
proof (induction bs arbitrary: s)
  case Nil
  show ?case by simp
next
  case (Cons b bs)
  then have nz: "hci_payload_size s \<noteq> 0" by auto
  let ?s1 = "s\<lparr>hci_payload_size := hci_payload_size s - 1, mosi := mosi s @ [b]\<rparr>"
  from Cons.prems nz have "length bs \<le> unat (hci_payload_size ?s1)"
    by (simp add: unat_minus_one)
  from Cons.IH [OF this] nz show ?case
    by (simp add: hci_write_u8_eq)
qed

lemma command_header_eq:
  "command_header opcode n s =
     s\<lparr>hci_pad := (if n AND 1 = 0 then 1 else 0),
        hci_payload_size := 4 + n + (if n AND 1 = 0 then 1 else 0),
        mosi := mosi s @
          [HCI_WRITE, ucast (drop_bit 8 (4 + n + (if n AND 1 = 0 then 1 else 0))),
           ucast ((4 + n + (if n AND 1 = 0 then 1 else 0)) AND 0xff), 0, 0,
           HCI_TYPE_CMND, ucast (opcode AND 0xff), ucast (drop_bit 8 opcode), ucast n]\<rparr>"
  by (simp add: command_header_def Let_def hci_put_def hci_transfer_def)

lemma socket_request_eq:
  "socket_request domain type protocol s =
     s\<lparr>hci_pad := 1, hci_payload_size := 5,
        mosi := mosi s @ [1, 0, 17, 0, 0, 1, 0x01, 0x10, 12] @
                le32 domain @ le32 type @ le32 protocol\<rparr>"
  by (simp add: socket_request_def command_header_eq hci_write_u32_le_eq hci_constants)

lemma connect_request_eq:
  "connect_request sd a s =
     s\<lparr>hci_pad := 1, hci_payload_size := 5,
        mosi := mosi s @ [1, 0, 25, 0, 0, 1, 0x07, 0x10, 20] @
                le32 (scast sd) @ le32 8 @ le32 8 @ map a [0..<8]\<rparr>"
  by (simp add: connect_request_def command_header_eq hci_write_u32_le_eq hci_write_array_eq
      hci_constants)



lemma hci_read_u32_le_link:
  assumes "4 \<le> unat (hci_payload_size s)"
  shows "fst (hci_read_u32_le s) =
     ucast (miso s (length (mosi s))) OR
     push_bit 8 (ucast (miso s (length (mosi s) + 1))) OR
     push_bit 16 (ucast (miso s (length (mosi s) + 2))) OR
     push_bit 24 (ucast (miso s (length (mosi s) + 3)))"
proof -
  from assms have nz: "hci_payload_size s \<noteq> 0" "hci_payload_size s \<noteq> 1"
    "hci_payload_size s \<noteq> 2" "hci_payload_size s \<noteq> 3"
    by auto
  have n: "length (mosi s) + 2 = Suc (Suc (length (mosi s)))"
    "length (mosi s) + 3 = Suc (Suc (Suc (length (mosi s))))" by simp_all
  show ?thesis
    unfolding n by (simp add: hci_read_u32_le_def hci_read_u8_eq nz split_def Let_def)
qed

lemma hci_read_status_eq:
  "hci_payload_size s \<noteq> 0 \<Longrightarrow>
   hci_read_status s = s\<lparr>hci_payload_size := hci_payload_size s - 1, mosi := mosi s @ [0]\<rparr>"
  by (simp add: hci_read_status_def hci_read_u8_eq)

subsection \<open>The socket calls\<close>

lemma socket_eq:
  "socket K domain type protocol s =
     (case wait_assert K s of
        None \<Rightarrow> None
      | Some s1 \<Rightarrow>
          (case hci_end_command_receive_u32_result K HCI_CMND_SOCKET 1000
                  (socket_request domain type protocol s1) of
             None \<Rightarrow> None
           | Some (result, s2) \<Rightarrow> Some (ucast result, s2)))"
  by (simp add: socket_def hci_begin_command_def socket_request_def Let_def split: option.splits)

lemma connect_eq:
  "addrlen \<noteq> 0 \<Longrightarrow>
   connect K sd (Some a) addrlen s =
     (case wait_assert K s of
        None \<Rightarrow> None
      | Some s1 \<Rightarrow>
          (case hci_end_command_receive_u32_result K HCI_CMND_CONNECT 10000
                  (connect_request sd a s1) of
             None \<Rightarrow> None
           | Some (result, s2) \<Rightarrow> Some (ucast result, s2)))"
  by (simp add: connect_def hci_begin_command_def connect_request_def Let_def
      split: option.splits)


lemma u32_result_eq:
  "hci_end_command_receive_u32_result K event timeout s = Some (result, t) \<Longrightarrow>
   \<exists>s2. hci_end_command_begin_receive K event timeout s = Some s2 \<and>
        result = fst (hci_read_u32_le (hci_read_status s2)) \<and>
        hci_end_receive (snd (hci_read_u32_le (hci_read_status s2))) = Some t"
  by (auto simp: hci_end_command_receive_u32_result_def split_def Let_def split: option.splits)

text \<open>
  C10. With \<^verbatim>\<open>addr\<close> null or \<^verbatim>\<open>addrlen\<close> zero, \<^verbatim>\<open>connect\<close> returns
  \<^verbatim>\<open>EFAIL\<close> and the state, link included, is the one it was called in. Otherwise the
  call is the same for every \<^verbatim>\<open>addrlen\<close>: after the handshake it has sent the command
  header for 20 argument bytes, the descriptor, the constant 8, the address length 8 and
  the 8 bytes at \<^verbatim>\<open>addr\<close>, and the value it returns is the result of the reply.
\<close>

theorem connect_contract:
  "(addr = None \<or> addrlen = 0 \<longrightarrow> connect K sd addr addrlen s = Some (EFAIL K, s)) \<and>
   (addrlen \<noteq> 0 \<longrightarrow>
      connect K sd (Some a) addrlen s =
        (case wait_assert K s of
           None \<Rightarrow> None
         | Some s1 \<Rightarrow>
             (case hci_end_command_receive_u32_result K HCI_CMND_CONNECT 10000
                     (connect_request sd a s1) of
                None \<Rightarrow> None
              | Some (result, s2) \<Rightarrow> Some (ucast result, s2)))) \<and>
   mosi (connect_request sd a s1) =
     mosi s1 @ [1, 0, 25, 0, 0, 1, 0x07, 0x10, 20] @
     le32 (scast sd) @ le32 8 @ le32 8 @ map a [0..<8]"
proof -
  have "connect K sd addr addrlen s = Some (EFAIL K, s)" if "addr = None \<or> addrlen = 0"
    using that by (cases addr) (auto simp: connect_def)
  then show ?thesis
    by (simp add: connect_eq connect_request_eq)
qed

theorem connect_contract_witness:
  "connect sample_h 3 None 16 boot = Some (- 1, boot) \<and>
   connect sample_h 3 (Some (device [2, 0, 0, 80, 10, 0, 0, 1])) 0 boot = Some (- 1, boot) \<and>
   (16 :: c_long) \<noteq> 0 \<and>
   connect sample_h 3 (Some (device [2, 0, 0, 80, 10, 0, 0, 1])) 16 boot =
   connect sample_h 3 (Some (device [2, 0, 0, 80, 10, 0, 0, 1])) 8 boot \<and>
   mosi (connect_request 3 (device [2, 0, 0, 80, 10, 0, 0, 1]) boot) =
     [1, 0, 25, 0, 0, 1, 0x07, 0x10, 20, 3, 0, 0, 0, 8, 0, 0, 0, 8, 0, 0, 0,
      2, 0, 0, 80, 10, 0, 0, 1]"
proof -
  let ?a = "device [2, 0, 0, 80, 10, 0, 0, 1]"
  note t1 = connect_contract [of None 16 sample_h 3 boot ?a boot]
  note t2 = connect_contract [of "Some ?a" 0 sample_h 3 boot ?a boot]
  note t3 = connect_contract [of "Some ?a" 16 sample_h 3 boot ?a boot]
  note t4 = connect_contract [of "Some ?a" 8 sample_h 3 boot ?a boot]
  have e: "EFAIL sample_h = - 1" by (simp add: sample_h_def)
  have m: "mosi boot = []" by (simp add: boot_def)
  have l: "le32 (scast (3 :: c_int)) = [3, 0, 0, 0]" "le32 8 = [8, 0, 0, 0]"
    by (simp_all add: le32_def)
  have a: "map ?a [0..<8] = [2, 0, 0, 80, 10, 0, 0, 1]"
    by (simp add: upt_rec device_def)
  from t1 have 1: "connect sample_h 3 None 16 boot = Some (- 1, boot)" unfolding e by simp
  from t2 have 2: "connect sample_h 3 (Some ?a) 0 boot = Some (- 1, boot)" unfolding e by simp
  from t3 t4 have 3: "connect sample_h 3 (Some ?a) 16 boot = connect sample_h 3 (Some ?a) 8 boot"
    by simp
  from t3 have 4: "mosi (connect_request 3 ?a boot) =
     [1, 0, 25, 0, 0, 1, 0x07, 0x10, 20, 3, 0, 0, 0, 8, 0, 0, 0, 8, 0, 0, 0,
      2, 0, 0, 80, 10, 0, 0, 1]"
    unfolding m l a by simp
  from 1 2 3 4 show ?thesis by simp
qed


subsection \<open>Conversions between \<^verbatim>\<open>int\<close> and 32-bit values\<close>

lemma sint_ucast_down: "sint (ucast (w :: u32) :: c_int) = signed_take_bit 15 (sint w)"
  by transfer (simp add: signed_take_bit_take_bit min_def)

lemma sint_ucast_fits:
  "- 32768 \<le> sint (w :: u32) \<Longrightarrow> sint w < 32768 \<Longrightarrow> sint (ucast w :: c_int) = sint w"
  unfolding sint_ucast_down by (rule signed_take_bit_int_eq_self) simp_all

lemma sint_scast_up: "sint (scast (w :: c_int) :: c_long) = sint w"
  by (simp add: sint_up_scast is_up)

lemma ucast_scast_id: "(ucast (scast (w :: c_int) :: c_long) :: c_int) = w"
  by (rule bit_word_eqI) (auto simp: bit_simps)

subsection \<open>Waiting on a condition of the state\<close>



subsection \<open>Closing a socket\<close>



subsection \<open>Waiting for the reply\<close>

lemma arm_reply_fields:
  "fst (arm_reply event timeout s) = clock s (clock_reads s) + timeout"
  "clock (snd (arm_reply event timeout s)) = clock s"
  "callbacks (snd (arm_reply event timeout s)) = callbacks s"
  "clock_reads (snd (arm_reply event timeout s)) = Suc (clock_reads s)"
  by (simp_all add: arm_reply_def Let_def split_def millis_def hci_put_def hci_transfer_def)

lemma pending_cond_leave:
  assumes "pending_cond tmr s0 = (False, t)"
  shows "hci_pending_event_available t = 0 \<longrightarrow>
           0 < clock_reads t \<and> tmr < clock t (clock_reads t - 1)"
  using assms
  by (auto simp: pending_cond_def millis_def Let_def split_def split: if_splits)

lemma await_reply_exit:
  assumes "await_reply K event timeout s = Some t"
  shows "clock t = clock s"
    and "hci_pending_event_available t = 0 \<longrightarrow>
           0 < clock_reads t \<and>
           clock s (clock_reads s) + timeout < clock s (clock_reads t - 1)"
proof -
  let ?tmr = "fst (arm_reply event timeout s)"
  let ?s1 = "snd (arm_reply event timeout s)"
  from assms obtain rest t0 where
    b: "busy_wait K (pending_cond ?tmr) (irqs ?s1) ?s1 = Some (rest, t0)"
    and t: "t = t0\<lparr>irqs := rest\<rparr>"
    by (auto simp: await_reply_def poll_while_def split_def Let_def split: option.splits)
  let ?P = "\<lambda>u. clock u = clock s"
  have c0: "?P t0"
  proof (rule busy_wait_invariant [where P = ?P, OF _ _ _ b])
    show "?P (snd (pending_cond ?tmr u))" if "?P u" for u
      using that by (simp add: pending_cond_def millis_def Let_def split_def)
    show "?P v" if "?P u" "hci_irq K u = Some v" for u v
      using that(1) hci_irq_frame [OF that(2)] by (simp add: unchanged_by_irq_def)
    show "?P ?s1" by (simp add: arm_reply_fields)
  qed
  with t show "clock t = clock s" by simp
  from busy_wait_exit [OF b] obtain s0 where "pending_cond ?tmr s0 = (False, t0)" ..
  from pending_cond_leave [OF this] c0 t
  show "hci_pending_event_available t = 0 \<longrightarrow>
           0 < clock_reads t \<and>
           clock s (clock_reads s) + timeout < clock s (clock_reads t - 1)"
    by (simp add: arm_reply_fields)
qed

subsection \<open>Receiving data\<close>

lemma hci_read_array_length: "length (fst (hci_read_array n s)) = n"
  by (induction n arbitrary: s) (simp_all add: split_def Let_def)

lemma hci_read_array_link:
  "\<exists>k. k \<le> unat (hci_payload_size s) \<and> k \<le> n \<and>
       snd (hci_read_array n s) =
         s\<lparr>hci_payload_size := hci_payload_size s - of_nat k, mosi := mosi s @ replicate k 0\<rparr> \<and>
       unat (hci_payload_size s - of_nat k) = unat (hci_payload_size s) - k"
proof (induction n arbitrary: s)
  case 0
  have "snd (hci_read_array 0 s) =
      s\<lparr>hci_payload_size := hci_payload_size s - of_nat 0, mosi := mosi s @ replicate 0 0\<rparr>"
    by simp
  then show ?case by (intro exI [of _ 0]) simp
next
  case (Suc n)
  show ?case
  proof (cases "hci_payload_size s = 0")
    case True
    have z: "snd (hci_read_array (Suc n) s) = s"
      unfolding hci_read_array_zero [OF True] by simp
    show ?thesis by (intro exI [of _ 0]) (simp del: hci_read_array.simps add: z)
  next
    case False
    let ?s1 = "s\<lparr>hci_payload_size := hci_payload_size s - 1, mosi := mosi s @ [0]\<rparr>"
    from False have p1: "unat (hci_payload_size ?s1) = unat (hci_payload_size s) - 1"
      by (simp add: unat_minus_one)
    from False have pos: "0 < unat (hci_payload_size s)" by (simp add: unat_gt_0)
    from Suc.IH [of ?s1] obtain k where k: "k \<le> unat (hci_payload_size ?s1)" "k \<le> n"
      "snd (hci_read_array n ?s1) =
         ?s1\<lparr>hci_payload_size := hci_payload_size ?s1 - of_nat k,
              mosi := mosi ?s1 @ replicate k 0\<rparr>"
      "unat (hci_payload_size ?s1 - of_nat k) = unat (hci_payload_size ?s1) - k"
      by blast
    have a: "hci_payload_size s - 1 - of_nat k = hci_payload_size s - of_nat (Suc k)" by simp
    have "snd (hci_read_array (Suc n) s) =
         s\<lparr>hci_payload_size := hci_payload_size s - of_nat (Suc k),
           mosi := mosi s @ replicate (Suc k) 0\<rparr>"
      using False k(3) by (simp add: hci_read_u8_eq split_def Let_def a replicate_append_same)
    moreover have "Suc k \<le> unat (hci_payload_size s)" using k(1) p1 pos by simp
    moreover have "unat (hci_payload_size s - of_nat (Suc k)) = unat (hci_payload_size s) - Suc k"
      using k(4) p1 unfolding a [symmetric] by simp
    ultimately show ?thesis using k(2) by (intro exI [of _ "Suc k"]) simp
  qed
qed

lemma hci_read_array_nth:
  "i < n \<Longrightarrow> i < unat (hci_payload_size s) \<Longrightarrow>
   fst (hci_read_array n s) ! i = miso s (length (mosi s) + i)"
proof (induction n arbitrary: s i)
  case 0
  then show ?case by simp
next
  case (Suc n)
  from Suc.prems(2) have nz: "hci_payload_size s \<noteq> 0" by auto
  let ?s1 = "s\<lparr>hci_payload_size := hci_payload_size s - 1, mosi := mosi s @ [0]\<rparr>"
  show ?case
  proof (cases i)
    case 0
    with nz show ?thesis by (simp add: hci_read_u8_eq split_def Let_def)
  next
    case (Suc j)
    with Suc.prems nz have "j < n" "j < unat (hci_payload_size ?s1)"
      by (simp_all add: unat_minus_one)
    from Suc.IH [OF this] Suc nz show ?thesis
      by (simp add: hci_read_u8_eq split_def Let_def)
  qed
qed

lemma read_then_end_receive:
  assumes "hci_end_receive (snd (hci_read_array n s)) = Some t"
  shows "mosi t = mosi s @ replicate (unat (hci_payload_size s)) 0"
    "hci_payload_size t = 0" "cs_pin t = HIGH"
proof -
  from hci_read_array_link [of s n] obtain k where k: "k \<le> unat (hci_payload_size s)"
    "snd (hci_read_array n s) =
       s\<lparr>hci_payload_size := hci_payload_size s - of_nat k, mosi := mosi s @ replicate k 0\<rparr>"
    "unat (hci_payload_size s - of_nat k) = unat (hci_payload_size s) - k"
    by blast
  let ?u = "s\<lparr>hci_payload_size := hci_payload_size s - of_nat k, mosi := mosi s @ replicate k 0\<rparr>"
  from assms k(2) have e: "hci_end_receive ?u = Some t" by simp
  from hci_end_receive_frame [OF e] show "hci_payload_size t = 0" "cs_pin t = HIGH" by simp_all
  from e obtain ps where "t = ?u\<lparr>hci_payload_size := 0,
      mosi := mosi ?u @ replicate (unat (hci_payload_size ?u)) 0, cs_pin := HIGH, irq_reads := ps\<rparr>"
    by (cases "wait_irq_deassert (irq_reads ?u)") (auto simp: hci_end_receive_eq)
  then have "mosi t = mosi s @ replicate k 0 @ replicate (unat (hci_payload_size s) - k) 0"
    using k(3) by simp
  with k(1) show "mosi t = mosi s @ replicate (unat (hci_payload_size s)) 0"
    by (simp add: replicate_add [symmetric])
qed

subsection \<open>Frames on the link\<close>

lemma incoming_after_0: "incoming_after 0 s bs = incoming s bs"
  by (simp add: incoming_after_def incoming_def)

lemma incoming_after_shift:
  assumes "incoming_after n s bs" "miso t = miso s" "length (mosi t) = length (mosi s) + n"
  shows "incoming t bs"
  using assms by (simp add: incoming_after_def incoming_def)

lemma incoming_append:
  assumes "incoming s (xs @ ys)"
  shows "incoming s xs" "incoming_after (length xs) s ys"
proof -
  show "incoming s xs"
    unfolding incoming_def
  proof (intro allI impI)
    fix j assume j: "j < length xs"
    with assms have "miso s (length (mosi s) + j) = (xs @ ys) ! j"
      unfolding incoming_def by simp
    with j show "miso s (length (mosi s) + j) = xs ! j" by (simp add: nth_append)
  qed
  show "incoming_after (length xs) s ys"
    unfolding incoming_after_def
  proof (intro allI impI)
    fix j assume j: "j < length ys"
    with assms have "miso s (length (mosi s) + (length xs + j)) = (xs @ ys) ! (length xs + j)"
      unfolding incoming_def by simp
    then show "miso s (length (mosi s) + length xs + j) = ys ! j"
      by (simp add: add.assoc)
  qed
qed

lemma incoming_nth: "incoming s bs \<Longrightarrow> j < length bs \<Longrightarrow> miso s (length (mosi s) + j) = bs ! j"
  by (simp add: incoming_def)

lemma be16_join: "push_bit 8 (ucast (ucast (drop_bit 8 v) :: u8)) OR ucast (ucast v :: u8) = (v :: u16)"
  by (rule bit_word_eqI) (auto simp: bit_simps)

lemma le32_join:
  "ucast (ucast v :: u8) OR push_bit 8 (ucast (ucast (drop_bit 8 v) :: u8)) OR
   push_bit 16 (ucast (ucast (drop_bit 16 v) :: u8)) OR
   push_bit 24 (ucast (ucast (drop_bit 24 v) :: u8)) = (v :: u32)"
proof (rule bit_word_eqI)
  fix n assume n: "n < LENGTH(32)"
  consider "n < 8" | "8 \<le> n" "n < 16" | "16 \<le> n" "n < 24" | "24 \<le> n" by linarith
  then show "bit (ucast (ucast v :: u8) OR push_bit 8 (ucast (ucast (drop_bit 8 v) :: u8)) OR
     push_bit 16 (ucast (ucast (drop_bit 16 v) :: u8)) OR
     push_bit 24 (ucast (ucast (drop_bit 24 v) :: u8)) :: u32) n = bit v n"
    using n by cases (auto simp: bit_simps)
qed


lemma incoming_advance:
  assumes "incoming s (xs @ ys)" "miso t = miso s" "length (mosi t) = length (mosi s) + length xs"
  shows "incoming t ys"
  using incoming_append(2) [OF assms(1)] assms(2,3) by (rule incoming_after_shift)

lemma hci_read_u8_run:
  assumes "incoming s (b # bs)" "hci_payload_size s \<noteq> 0"
  shows "hci_read_u8 s =
     (b, s\<lparr>hci_payload_size := hci_payload_size s - 1, mosi := mosi s @ [0]\<rparr>)"
  using incoming_nth [OF assms(1), of 0] assms(2) by (simp add: hci_read_u8_eq)

lemma hci_read_u16_le_run:
  assumes "incoming s (le16 v @ bs)" "2 \<le> unat (hci_payload_size s)"
  shows "hci_read_u16_le s =
     (v, s\<lparr>hci_payload_size := hci_payload_size s - 2, mosi := mosi s @ [0, 0]\<rparr>)"
proof -
  from assms(2) have nz: "hci_payload_size s \<noteq> 0" "hci_payload_size s \<noteq> 1" by auto
  from assms(1) have i: "incoming s (ucast v # ucast (drop_bit 8 v) # bs)" by (simp add: le16_def)
  have b0: "miso s (length (mosi s)) = ucast v" using incoming_nth [OF i, of 0] by simp
  have b1: "miso s (Suc (length (mosi s))) = ucast (drop_bit 8 v)"
    using incoming_nth [OF i, of 1] by simp
  show ?thesis
    by (simp add: hci_read_u16_le_def hci_read_u8_eq nz split_def Let_def b0 b1 le16_join)
qed

lemma hci_read_u32_le_run:
  assumes "incoming s (le32 v @ bs)" "4 \<le> unat (hci_payload_size s)"
  shows "hci_read_u32_le s =
     (v, s\<lparr>hci_payload_size := hci_payload_size s - 4, mosi := mosi s @ [0, 0, 0, 0]\<rparr>)"
proof -
  from assms(2) have nz: "hci_payload_size s \<noteq> 0" "hci_payload_size s \<noteq> 1"
    "hci_payload_size s \<noteq> 2" "hci_payload_size s \<noteq> 3" by auto
  from assms(1) have i: "incoming s (ucast v # ucast (drop_bit 8 v) # ucast (drop_bit 16 v) #
      ucast (drop_bit 24 v) # bs)" by (simp add: le32_def)
  have b0: "miso s (length (mosi s)) = ucast v" using incoming_nth [OF i, of 0] by simp
  have b1: "miso s (Suc (length (mosi s))) = ucast (drop_bit 8 v)"
    using incoming_nth [OF i, of 1] by simp
  have b2: "miso s (Suc (Suc (length (mosi s)))) = ucast (drop_bit 16 v)"
    using incoming_nth [OF i, of 2] by simp
  have b3: "miso s (Suc (Suc (Suc (length (mosi s))))) = ucast (drop_bit 24 v)"
    using incoming_nth [OF i, of 3] by (simp add: numeral_3_eq_3)
  show ?thesis
    by (simp add: hci_read_u32_le_def hci_read_u8_eq nz split_def Let_def b0 b1 b2 b3 le32_join)
qed

lemma skip_args_run:
  "n \<le> unat (hci_payload_size s) \<Longrightarrow>
   skip_args n s =
     s\<lparr>hci_payload_size := hci_payload_size s - of_nat n, mosi := mosi s @ replicate n 0\<rparr>"
proof (induction n arbitrary: s)
  case 0
  show ?case by simp
next
  case (Suc n)
  then have nz: "hci_payload_size s \<noteq> 0" by auto
  let ?s1 = "s\<lparr>hci_payload_size := hci_payload_size s - 1, mosi := mosi s @ [0]\<rparr>"
  from Suc.prems nz have "n \<le> unat (hci_payload_size ?s1)" by (simp add: unat_minus_one)
  from Suc.IH [OF this] nz show ?case
    by (simp add: hci_read_u8_eq replicate_append_same)
qed


subsection \<open>The handler on a whole frame\<close>

lemma unat_of_nat_u16: "n < 65536 \<Longrightarrow> unat (of_nat n :: u16) = n"
  by (simp add: unat_of_nat)

lemma begin_receive_run:
  assumes inc: "incoming s (busy @ be16 v @ rest)" and busy: "length busy = 3"
  shows "hci_begin_receive s =
     s\<lparr>cs_pin := LOW, mosi := mosi s @ [HCI_READ, 0, 0, 0, 0], hci_payload_size := v\<rparr>"
    and "incoming (hci_begin_receive s) rest"
proof -
  have l: "length (busy @ be16 v @ rest) = 5 + length rest" using busy by (simp add: be16_def)
  have n3: "(busy @ be16 v @ rest) ! 3 = ucast (drop_bit 8 v)"
    using busy by (simp add: nth_append be16_def)
  have n4: "(busy @ be16 v @ rest) ! 4 = ucast v"
    using busy by (simp add: nth_append be16_def)
  have m3: "miso s (length (mosi s) + 3) = ucast (drop_bit 8 v)"
    using incoming_nth [OF inc, of 3] l n3 by simp
  have m4: "miso s (length (mosi s) + 4) = ucast v"
    using incoming_nth [OF inc, of 4] l n4 by simp
  show e: "hci_begin_receive s =
     s\<lparr>cs_pin := LOW, mosi := mosi s @ [HCI_READ, 0, 0, 0, 0], hci_payload_size := v\<rparr>"
    unfolding hci_begin_receive_eq m3 m4 be16_join ..
  from inc have "incoming s ((busy @ be16 v) @ rest)" by simp
  then show "incoming (hci_begin_receive s) rest"
    by (rule incoming_advance) (simp_all add: e busy be16_def)
qed

lemma hci_irq_reply:
  assumes idle: "hci_state s \<noteq> HCI_STATE_WAIT_ASSERT"
    and inc: "incoming s (event_frame busy (hci_pending_event s) args_size body)"
    and busy: "length busy = 3" and len: "4 + length body < 65536"
  shows "hci_irq K s =
     Some (s\<lparr>cs_pin := LOW, mosi := mosi s @ [HCI_READ, 0, 0, 0, 0, 0, 0, 0, 0],
             hci_payload_size := of_nat (length body), hci_pending_event_available := 1\<rparr>)"
    (is "_ = Some ?r")
    and "incoming
      (s\<lparr>cs_pin := LOW, mosi := mosi s @ [HCI_READ, 0, 0, 0, 0, 0, 0, 0, 0],
             hci_payload_size := of_nat (length body), hci_pending_event_available := 1\<rparr>) body"
proof -
  let ?v = "of_nat (4 + length body) :: u16"
  let ?e = "hci_pending_event s"
  let ?s0 = "s\<lparr>cs_pin := LOW, mosi := mosi s @ [HCI_READ, 0, 0, 0, 0], hci_payload_size := ?v\<rparr>"
  from inc have i: "incoming s (busy @ be16 ?v @ (HCI_TYPE_EVNT # le16 ?e @ args_size # body))"
    by (simp add: event_frame_def)
  note b = begin_receive_run [OF i busy]
  from len have u: "unat ?v = 4 + length body" by (rule unat_of_nat_u16)
  have i0: "incoming ?s0 (HCI_TYPE_EVNT # le16 ?e @ args_size # body)" using b by simp
  from u have nz0: "hci_payload_size ?s0 \<noteq> 0" by auto
  let ?s1 = "?s0\<lparr>hci_payload_size := ?v - 1, mosi := mosi ?s0 @ [0]\<rparr>"
  have r1: "hci_read_u8 ?s0 = (HCI_TYPE_EVNT, ?s1)"
    using hci_read_u8_run [OF i0 nz0] by simp
  from i0 have "incoming ?s0 ([HCI_TYPE_EVNT] @ (le16 ?e @ args_size # body))" by simp
  then have i1: "incoming ?s1 (le16 ?e @ args_size # body)"
    by (rule incoming_advance) simp_all
  have "unat (of_nat (3 + length body) :: u16) = 3 + length body"
    using len by (intro unat_of_nat_u16) simp
  then have u1: "unat (?v - 1) = 3 + length body" by simp
  then have p1: "2 \<le> unat (hci_payload_size ?s1)" by simp
  let ?s2 = "?s1\<lparr>hci_payload_size := ?v - 1 - 2, mosi := mosi ?s1 @ [0, 0]\<rparr>"
  have r2: "hci_read_u16_le ?s1 = (?e, ?s2)"
    using hci_read_u16_le_run [OF i1 p1] by simp
  have i2: "incoming ?s2 (args_size # body)"
    using i1 by (rule incoming_advance) (simp_all add: le16_def)
  have "unat (of_nat (1 + length body) :: u16) = 1 + length body"
    using len by (intro unat_of_nat_u16) simp
  then have u2: "unat (?v - 1 - 2) = 1 + length body" by simp
  then have nz2: "hci_payload_size ?s2 \<noteq> 0" by auto
  let ?s3 = "?s2\<lparr>hci_payload_size := ?v - 1 - 2 - 1, mosi := mosi ?s2 @ [0]\<rparr>"
  have r3: "hci_read_u8 ?s2 = (args_size, ?s3)"
    using hci_read_u8_run [OF i2 nz2] by simp
  have v4: "?v - 1 - 2 - 1 = of_nat (length body)" by simp
  have pe: "hci_pending_event ?s1 = ?e" by simp
  have d: "hci_dispatch_event K ?s1 = Some (?s3\<lparr>hci_pending_event_available := 1\<rparr>)"
    unfolding hci_dispatch_event_eq r2 r3 fst_conv snd_conv pe by simp
  have "hci_irq K s = hci_dispatch K ?s0" using idle b(1) by (simp add: hci_irq_def)
  also have "\<dots> = hci_dispatch_event K ?s1" unfolding hci_dispatch_def r1 by simp
  also have "\<dots> = Some ?r" unfolding d v4 by simp
  finally show irq: "hci_irq K s = Some ?r" .
  from i2 have "incoming ?s2 ([args_size] @ body)" by simp
  then show "incoming ?r body"
    by (rule incoming_advance) simp_all
qed


lemma hci_irq_data:
  assumes idle: "hci_state s \<noteq> HCI_STATE_WAIT_ASSERT"
    and inc: "incoming s (data_frame busy data_type args payload_size payload)"
    and busy: "length busy = 3" and la: "length args < 256"
    and len: "5 + length args + length payload < 65536"
  shows "hci_irq K s =
     Some (s\<lparr>cs_pin := LOW,
             mosi := mosi s @ [HCI_READ, 0, 0, 0, 0, 0, 0, 0, 0, 0] @ replicate (length args) 0,
             hci_payload_size := of_nat (length payload), hci_data_available := 1\<rparr>)"
    (is "_ = Some ?r")
    and "incoming
      (s\<lparr>cs_pin := LOW,
             mosi := mosi s @ [HCI_READ, 0, 0, 0, 0, 0, 0, 0, 0, 0] @ replicate (length args) 0,
             hci_payload_size := of_nat (length payload), hci_data_available := 1\<rparr>) payload"
proof -
  define n where "n = length args + length payload"
  have e: "5 + length args + length payload = 5 + n" by (simp add: n_def)
  let ?v = "of_nat (5 + n) :: u16"
  let ?a = "of_nat (length args) :: u8"
  let ?s0 = "s\<lparr>cs_pin := LOW, mosi := mosi s @ [HCI_READ, 0, 0, 0, 0], hci_payload_size := ?v\<rparr>"
  from inc have i: "incoming s (busy @ be16 ?v @
      (HCI_TYPE_DATA # data_type # ?a # le16 payload_size @ args @ payload))"
    by (simp add: data_frame_def e)
  note b = begin_receive_run [OF i busy]
  have i0: "incoming ?s0 (HCI_TYPE_DATA # data_type # ?a # le16 payload_size @ args @ payload)"
    using b by simp
  have un: "unat (of_nat (k + n) :: u16) = k + n" if "k \<le> 5" for k
    using len that by (intro unat_of_nat_u16) (simp add: n_def)
  have nz0: "hci_payload_size ?s0 \<noteq> 0" using un [of 5] by auto
  let ?s1 = "?s0\<lparr>hci_payload_size := ?v - 1, mosi := mosi ?s0 @ [0]\<rparr>"
  have r1: "hci_read_u8 ?s0 = (HCI_TYPE_DATA, ?s1)"
    using hci_read_u8_run [OF i0 nz0] by simp
  from i0 have "incoming ?s0 ([HCI_TYPE_DATA] @ (data_type # ?a # le16 payload_size @ args @ payload))"
    by simp
  then have i1: "incoming ?s1 (data_type # ?a # le16 payload_size @ args @ payload)"
    by (rule incoming_advance) simp_all
  have u1: "unat (?v - 1) = 4 + n" using un [of 4] by simp
  then have nz1: "hci_payload_size ?s1 \<noteq> 0" by auto
  let ?s2 = "?s1\<lparr>hci_payload_size := ?v - 1 - 1, mosi := mosi ?s1 @ [0]\<rparr>"
  have r2: "hci_read_u8 ?s1 = (data_type, ?s2)"
    using hci_read_u8_run [OF i1 nz1] by simp
  from i1 have "incoming ?s1 ([data_type] @ (?a # le16 payload_size @ args @ payload))" by simp
  then have i2: "incoming ?s2 (?a # le16 payload_size @ args @ payload)"
    by (rule incoming_advance) simp_all
  have u2: "unat (?v - 1 - 1) = 3 + n" using un [of 3] by simp
  then have nz2: "hci_payload_size ?s2 \<noteq> 0" by auto
  let ?s3 = "?s2\<lparr>hci_payload_size := ?v - 1 - 1 - 1, mosi := mosi ?s2 @ [0]\<rparr>"
  have r3: "hci_read_u8 ?s2 = (?a, ?s3)"
    using hci_read_u8_run [OF i2 nz2] by simp
  from i2 have "incoming ?s2 ([?a] @ (le16 payload_size @ args @ payload))" by simp
  then have i3: "incoming ?s3 (le16 payload_size @ args @ payload)"
    by (rule incoming_advance) simp_all
  have u3: "unat (?v - 1 - 1 - 1) = 2 + n" using un [of 2] by simp
  then have p3: "2 \<le> unat (hci_payload_size ?s3)" by simp
  let ?s4 = "?s3\<lparr>hci_payload_size := ?v - 1 - 1 - 1 - 2, mosi := mosi ?s3 @ [0, 0]\<rparr>"
  have r4: "hci_read_u16_le ?s3 = (payload_size, ?s4)"
    using hci_read_u16_le_run [OF i3 p3] by simp
  have i4: "incoming ?s4 (args @ payload)"
    using i3 by (rule incoming_advance) (simp_all add: le16_def)
  have u4: "unat (?v - 1 - 1 - 1 - 2) = n" using un [of 0] by simp
  then have p4: "length args \<le> unat (hci_payload_size ?s4)" by (simp add: n_def)
  have ua: "unat ?a = length args" using la by (simp add: unat_of_nat)
  let ?s5 = "?s4\<lparr>hci_payload_size := hci_payload_size ?s4 - of_nat (length args),
                  mosi := mosi ?s4 @ replicate (length args) 0\<rparr>"
  have r5: "skip_args (unat ?a) ?s4 = ?s5" unfolding ua by (rule skip_args_run [OF p4])
  have dd: "hci_dispatch_data ?s1 = ?s5\<lparr>hci_data_available := 1\<rparr>"
    unfolding hci_dispatch_data_def r2 r3 r4 Let_def prod.case r5 ..
  have fin: "?s5\<lparr>hci_data_available := 1\<rparr> = ?r" by (simp add: n_def)
  have ne: "HCI_TYPE_DATA \<noteq> HCI_TYPE_EVNT" by (simp add: hci_constants)
  have "hci_irq K s = hci_dispatch K ?s0" using idle b(1) by (simp add: hci_irq_def)
  also have "\<dots> = Some (hci_dispatch_data ?s1)" unfolding hci_dispatch_def r1 using ne by simp
  also have "\<dots> = Some ?r" unfolding dd fin ..
  finally show "hci_irq K s = Some ?r" .
  have "incoming ?s5 payload"
    using i4 by (rule incoming_advance) simp_all
  then show "incoming ?r payload" unfolding fin [symmetric] by (simp add: incoming_def)
qed


subsection \<open>Busy-wait loops on a given script\<close>

lemma busy_wait_quiet:
  "c s \<Longrightarrow>
   busy_wait K (\<lambda>s. (c s, s)) (replicate k False @ bs) s = busy_wait K (\<lambda>s. (c s, s)) bs s"
  by (induction k) simp_all

lemma poll_while_run:
  assumes "c s" "irqs s = replicate k False @ True # rest" "hci_irq K s = Some t" "\<not> c t"
  shows "poll_while K (\<lambda>s. (c s, s)) s = Some (t\<lparr>irqs := rest\<rparr>)"
proof -
  have "busy_wait K (\<lambda>s. (c s, s)) rest t = Some (rest, t)"
    using assms(4) by (intro busy_wait_leave) simp
  then have "busy_wait K (\<lambda>s. (c s, s)) (True # rest) s = Some (rest, t)"
    using assms(1,3) by simp
  then show ?thesis
    unfolding poll_while_def assms(2) busy_wait_quiet [of c s, OF assms(1)] by simp
qed

lemma wait_assert_run:
  assumes "irqs s = replicate k False @ True # rest"
  shows "wait_assert K s = Some (s\<lparr>hci_state := HCI_STATE_IDLE, cs_pin := LOW, irqs := rest\<rparr>)"
proof -
  let ?u = "s\<lparr>hci_state := HCI_STATE_WAIT_ASSERT, cs_pin := LOW\<rparr>"
  have "poll_while K (\<lambda>s. (hci_state s \<noteq> HCI_STATE_IDLE, s)) ?u =
      Some ((?u\<lparr>hci_state := HCI_STATE_IDLE\<rparr>)\<lparr>irqs := rest\<rparr>)"
    by (rule poll_while_run [where k = k and c = "\<lambda>s. hci_state s \<noteq> HCI_STATE_IDLE"])
      (simp_all add: assms hci_irq_def hci_constants)
  then show ?thesis by (simp add: wait_assert_def)
qed

lemma hci_wait_data_run:
  assumes flag: "hci_data_available s = 0"
    and idle: "hci_state s \<noteq> HCI_STATE_WAIT_ASSERT"
    and irq: "irqs s = replicate k False @ True # rest"
    and inc: "incoming s (data_frame busy data_type args payload_size payload)"
    and busy: "length busy = 3" and la: "length args < 256"
    and len: "5 + length args + length payload < 65536"
  shows "hci_wait_data K s =
     Some (s\<lparr>cs_pin := LOW,
             mosi := mosi s @ [HCI_READ, 0, 0, 0, 0, 0, 0, 0, 0, 0] @ replicate (length args) 0,
             hci_payload_size := of_nat (length payload), hci_data_available := 1,
             irqs := rest\<rparr>)"
proof -
  note r = hci_irq_data(1) [OF idle inc busy la len, of K]
  have "poll_while K (\<lambda>s. (hci_data_available s = 0, s)) s =
     Some ((s\<lparr>cs_pin := LOW,
             mosi := mosi s @ [HCI_READ, 0, 0, 0, 0, 0, 0, 0, 0, 0] @ replicate (length args) 0,
             hci_payload_size := of_nat (length payload), hci_data_available := 1\<rparr>)
           \<lparr>irqs := rest\<rparr>)"
    by (rule poll_while_run [where k = k and c = "\<lambda>s. hci_data_available s = 0",
          OF flag irq r]) simp
  then show ?thesis by (simp add: hci_wait_data_def)
qed

lemma pending_quiet:
  "hci_pending_event_available s = 0 \<Longrightarrow>
   (\<forall>i<k. clock s (clock_reads s + i) \<le> tmr) \<Longrightarrow>
   busy_wait K (pending_cond tmr) (replicate k False @ bs) s =
     busy_wait K (pending_cond tmr) bs (s\<lparr>clock_reads := clock_reads s + k\<rparr>)"
proof (induction k arbitrary: s)
  case 0
  show ?case by simp
next
  case (Suc k)
  let ?s1 = "s\<lparr>clock_reads := Suc (clock_reads s)\<rparr>"
  from Suc.prems(2) have "clock s (clock_reads s + 0) \<le> tmr" by blast
  with Suc.prems(1) have c: "pending_cond tmr s = (True, ?s1)"
    by (simp add: pending_cond_def millis_def)
  have "\<forall>i<k. clock ?s1 (clock_reads ?s1 + i) \<le> tmr"
    using Suc.prems(2) by auto
  from Suc.IH [OF _ this] Suc.prems(1) c show ?case by simp
qed


lemma arm_reply_eq:
  "arm_reply event timeout u =
     (clock u (clock_reads u) + timeout,
      u\<lparr>hci_pending_event := event, hci_pending_event_available := 0, hci_data_available := 0,
        clock_reads := Suc (clock_reads u),
        mosi := mosi u @ (if hci_pad u \<noteq> 0 then [0] else []), cs_pin := HIGH\<rparr>)"
  by (simp add: arm_reply_def Let_def split_def millis_def hci_put_def hci_transfer_def)

lemma await_reply_run:
  assumes idle: "hci_state u \<noteq> HCI_STATE_WAIT_ASSERT"
    and irq: "irqs u = replicate k False @ True # rest"
    and intime: "\<forall>i\<le>k. clock u (clock_reads u + 1 + i) \<le> clock u (clock_reads u) + timeout"
    and inc: "incoming_after (if hci_pad u \<noteq> 0 then 1 else 0) u
                (event_frame busy event args_size body)"
    and busy: "length busy = 3" and len: "4 + length body < 65536"
  shows "await_reply K event timeout u =
     Some (u\<lparr>hci_pending_event := event, hci_pending_event_available := 1,
             hci_data_available := 0, clock_reads := clock_reads u + k + 2,
             mosi := mosi u @ (if hci_pad u \<noteq> 0 then [0] else []) @
                     [HCI_READ, 0, 0, 0, 0, 0, 0, 0, 0],
             cs_pin := LOW, hci_payload_size := of_nat (length body), irqs := rest\<rparr>)"
    (is "_ = Some ?w")
proof -
  let ?tmr = "clock u (clock_reads u) + timeout"
  let ?pad = "if hci_pad u \<noteq> 0 then [0] else [] :: u8 list"
  let ?s1 = "u\<lparr>hci_pending_event := event, hci_pending_event_available := 0,
        hci_data_available := 0, clock_reads := Suc (clock_reads u),
        mosi := mosi u @ ?pad, cs_pin := HIGH\<rparr>"
  let ?s1k = "?s1\<lparr>clock_reads := clock_reads ?s1 + k\<rparr>"
  let ?s2 = "?s1k\<lparr>clock_reads := Suc (clock_reads ?s1k)\<rparr>"
  let ?v = "?s2\<lparr>cs_pin := LOW, mosi := mosi ?s2 @ [HCI_READ, 0, 0, 0, 0, 0, 0, 0, 0],
             hci_payload_size := of_nat (length body), hci_pending_event_available := 1\<rparr>"
  have a: "arm_reply event timeout u = (?tmr, ?s1)" by (rule arm_reply_eq)
  have q: "\<forall>i<k. clock ?s1 (clock_reads ?s1 + i) \<le> ?tmr"
    using intime by simp
  have f1: "hci_pending_event_available ?s1 = 0" by simp
  have c: "pending_cond ?tmr ?s1k = (True, ?s2)"
    using intime by (simp add: pending_cond_def millis_def)
  have i2: "incoming ?s2 (event_frame busy (hci_pending_event ?s2) args_size body)"
    using inc by (cases "hci_pad u = 0") (simp_all add: incoming_after_def incoming_def)
  have idle2: "hci_state ?s2 \<noteq> HCI_STATE_WAIT_ASSERT" using idle by simp
  note r = hci_irq_reply(1) [OF idle2 i2 busy len, of K]
  have l: "pending_cond ?tmr ?v = (False, ?v)" by (simp add: pending_cond_def)
  have "busy_wait K (pending_cond ?tmr) rest ?v = Some (rest, ?v)"
    using l by (rule busy_wait_leave)
  then have "busy_wait K (pending_cond ?tmr) (True # rest) ?s1k = Some (rest, ?v)"
    unfolding busy_wait.simps c prod.case using r by simp
  then have "busy_wait K (pending_cond ?tmr) (irqs ?s1) ?s1 = Some (rest, ?v)"
    using pending_quiet [OF f1 q, of K "True # rest"] irq by simp
  then have "await_reply K event timeout u = Some (?v\<lparr>irqs := rest\<rparr>)"
    unfolding await_reply_def a by (simp add: poll_while_def)
  moreover have "?v\<lparr>irqs := rest\<rparr> = ?w" by simp
  ultimately show ?thesis by simp
qed


lemma reply_run:
  assumes idle: "hci_state u \<noteq> HCI_STATE_WAIT_ASSERT"
    and irq: "irqs u = replicate k False @ True # rest"
    and intime: "\<forall>i\<le>k. clock u (clock_reads u + 1 + i) \<le> clock u (clock_reads u) + timeout"
    and inc: "incoming_after (if hci_pad u \<noteq> 0 then 1 else 0) u
                (event_frame busy event args_size body)"
    and busy: "length busy = 3" and len: "4 + length body < 65536"
  shows "hci_end_command_begin_receive K event timeout u =
     Some (u\<lparr>hci_pending_event := event, hci_pending_event_available := 1,
             hci_data_available := 0, clock_reads := clock_reads u + k + 3,
             mosi := mosi u @ (if hci_pad u \<noteq> 0 then [0] else []) @
                     [HCI_READ, 0, 0, 0, 0, 0, 0, 0, 0],
             cs_pin := LOW, hci_payload_size := of_nat (length body), irqs := rest,
             callbacks := callbacks u @
               (if clock u (clock_reads u) + timeout < clock u (clock_reads u + k + 2)
                then [(HCI_EVNT_CC3000_LOCKED K, 0)] else [])\<rparr>)"
  unfolding hci_end_command_begin_receive_def
    await_reply_run [OF idle irq intime inc busy len] arm_reply_eq
  by (simp add: millis_def wifi_callback_def)

lemma wait_irq_deassert_run: "wait_irq_deassert (replicate a LOW @ HIGH # lv) = Some lv"
  by (induction a) simp_all

lemma body_after_reply:
  assumes inc: "incoming_after n u (event_frame busy event args_size body)"
    and busy: "length busy = 3"
    and t: "miso t = miso u" "length (mosi t) = length (mosi u) + n + 9"
  shows "incoming t body"
proof -
  have e: "event_frame busy event args_size body =
      (busy @ be16 (of_nat (4 + length body)) @ [HCI_TYPE_EVNT] @ le16 event @ [args_size]) @ body"
    by (simp add: event_frame_def)
  have "\<forall>j<length body. miso u (length (mosi u) + n + (9 + j)) = body ! j"
  proof (intro allI impI)
    fix j assume j: "j < length body"
    have l: "length (busy @ be16 (of_nat (4 + length body)) @ [HCI_TYPE_EVNT] @ le16 event @
        [args_size]) = 9"
      using busy by (simp add: be16_def le16_def)
    from inc j have "miso u (length (mosi u) + n + (9 + j)) =
        event_frame busy event args_size body ! (9 + j)"
      using l unfolding incoming_after_def e by (simp del: append_assoc)
    also have "\<dots> = body ! j"
      unfolding e using l by (simp add: nth_append del: append_assoc)
    finally show "miso u (length (mosi u) + n + (9 + j)) = body ! j" .
  qed
  with t show ?thesis by (simp add: incoming_def add.assoc)
qed

subsection \<open>A command and its reply\<close>

lemma u32_command_run:
  assumes idle: "hci_state u \<noteq> HCI_STATE_WAIT_ASSERT"
    and irq: "irqs u = replicate k False @ True # rest"
    and intime: "\<forall>i\<le>k. clock u (clock_reads u + 1 + i) \<le> clock u (clock_reads u) + timeout"
    and inc: "incoming_after (if hci_pad u \<noteq> 0 then 1 else 0) u
                (event_frame busy event args_size (status # le32 result @ tail))"
    and busy: "length busy = 3" and len: "9 + length tail < 65536"
    and reads: "irq_reads u = replicate a LOW @ HIGH # lv"
  shows "hci_end_command_receive_u32_result K event timeout u =
     Some (result,
       u\<lparr>hci_pending_event := event, hci_pending_event_available := 1,
         hci_data_available := 0, clock_reads := clock_reads u + k + 3,
         mosi := mosi u @ (if hci_pad u \<noteq> 0 then [0] else []) @
                 HCI_READ # replicate (13 + length tail) 0,
         cs_pin := HIGH, hci_payload_size := 0, irqs := rest, irq_reads := lv,
         callbacks := callbacks u @
           (if clock u (clock_reads u) + timeout < clock u (clock_reads u + k + 2)
            then [(HCI_EVNT_CC3000_LOCKED K, 0)] else [])\<rparr>)"
proof -
  define m where "m = length tail"
  define P :: u16 where "P = of_nat (length (status # le32 result @ tail))"
  let ?body = "status # le32 result @ tail"
  let ?pad = "if hci_pad u \<noteq> 0 then [0] else [] :: u8 list"
  let ?cb = "callbacks u @
           (if clock u (clock_reads u) + timeout < clock u (clock_reads u + k + 2)
            then [(HCI_EVNT_CC3000_LOCKED K, 0)] else [])"
  let ?s1 = "u\<lparr>hci_pending_event := event, hci_pending_event_available := 1,
             hci_data_available := 0, clock_reads := clock_reads u + k + 3,
             mosi := mosi u @ ?pad @ [HCI_READ, 0, 0, 0, 0, 0, 0, 0, 0],
             cs_pin := LOW, hci_payload_size := P, irqs := rest,
             callbacks := ?cb\<rparr>"
  have lb: "length ?body = 5 + m" by (simp add: le32_def m_def)
  from len have len': "4 + length ?body < 65536" by (simp add: le32_def)
  have r: "hci_end_command_begin_receive K event timeout u = Some ?s1"
    unfolding P_def by (rule reply_run [OF idle irq intime inc busy len'])
  have i1: "incoming ?s1 ?body"
    by (rule body_after_reply [OF inc busy]) (simp_all split: if_splits)
  have "unat (of_nat (5 + m) :: u16) = 5 + m"
    by (rule unat_of_nat_u16) (use len in \<open>simp add: m_def\<close>)
  then have uP: "unat P = 5 + m" unfolding P_def lb .
  then have p1: "unat (hci_payload_size ?s1) = 5 + m" by simp
  from uP have nz: "hci_payload_size ?s1 \<noteq> 0" by auto
  let ?s2 = "?s1\<lparr>hci_payload_size := hci_payload_size ?s1 - 1, mosi := mosi ?s1 @ [0]\<rparr>"
  have st: "hci_read_status ?s1 = ?s2"
    using hci_read_u8_run [OF i1 nz] by (simp add: hci_read_status_def)
  have i2: "incoming ?s2 (le32 result @ tail)"
    using incoming_advance [of ?s1 "[status]" "le32 result @ tail" ?s2] i1 by simp
  have p2: "unat (hci_payload_size ?s2) = 4 + m"
    using p1 nz by (simp add: unat_minus_one)
  then have ge: "4 \<le> unat (hci_payload_size ?s2)" by simp
  let ?s3 = "?s2\<lparr>hci_payload_size := hci_payload_size ?s2 - 4, mosi := mosi ?s2 @ [0, 0, 0, 0]\<rparr>"
  have rd: "hci_read_u32_le ?s2 = (result, ?s3)"
    by (rule hci_read_u32_le_run [OF i2 ge])
  have p3: "unat (hci_payload_size ?s3) = m"
  proof -
    have "unat (hci_payload_size ?s2 - 4) = unat (hci_payload_size ?s2) - unat (4 :: u16)"
      by (rule unat_sub) (use ge in \<open>simp add: word_le_nat_alt\<close>)
    with p2 show ?thesis by simp
  qed
  have er: "hci_end_receive ?s3 =
      Some (?s3\<lparr>hci_payload_size := 0, mosi := mosi ?s3 @ replicate m 0, cs_pin := HIGH,
                 irq_reads := lv\<rparr>)"
    unfolding hci_end_receive_eq p3 using reads by (simp add: wait_irq_deassert_run)
  have rep: "[HCI_READ, 0, 0, 0, 0, 0, 0, 0, 0] @ [0] @ [0, 0, 0, 0] @ replicate m 0 =
      HCI_READ # replicate (13 + m) (0 :: u8)"
    by (simp add: numeral_eq_Suc)
  show ?thesis
    unfolding hci_end_command_receive_u32_result_def r option.case st rd Let_def prod.case er
    using rep unfolding m_def by simp
qed


lemma incoming_after_device:
  "mosi s = [] \<Longrightarrow> miso s = device (xs @ bs @ ys) \<Longrightarrow> length xs = n \<Longrightarrow> incoming_after n s bs"
  by (auto simp: incoming_after_def device_def nth_append)

lemma incoming_after_weaken:
  "incoming_after n s bs \<Longrightarrow> miso t = miso s \<Longrightarrow> length (mosi t) + k = length (mosi s) + n \<Longrightarrow>
   incoming_after k t bs"
  by (simp add: incoming_after_def add.assoc [symmetric])

subsection \<open>Opening a socket\<close>

text \<open>
  C9. A run of \<^verbatim>\<open>socket\<close> in which the interrupt line fires for the handshake, then
  for the reply while the clock is within the deadline, the device answering the read
  request with the reply event of \<^verbatim>\<open>HCI_CMND_SOCKET\<close>: status byte, 32-bit result,
  possibly more. The call returns. On the link it has put the command header for 12
  argument bytes, then domain, type and protocol, each as a 32-bit little-endian value,
  the pad byte, and the read request that takes the reply to its end. The value returned
  is the result of the reply converted to \<^verbatim>\<open>int\<close>, which has 16 bits: the result
  itself whenever that fits an \<^verbatim>\<open>int\<close>.
\<close>

theorem socket_returns_reply:
  assumes "irqs s = replicate k1 False @ True # replicate k2 False @ True # rest"
    and "irq_reads s = replicate a LOW @ HIGH # lv"
    and "\<forall>i\<le>k2. clock s (clock_reads s + 1 + i) \<le> clock s (clock_reads s) + 1000"
    and "incoming_after 22 s
           (event_frame busy HCI_CMND_SOCKET args_size (status # le32 result @ tail))"
    and "length busy = 3" and "9 + length tail < 65536"
  shows "\<exists>t. socket K domain type protocol s = Some (ucast result, t) \<and>
           mosi t = mosi s @ [1, 0, 17, 0, 0, 1, 0x01, 0x10, 12] @
                   le32 domain @ le32 type @ le32 protocol @ [0] @
                   HCI_READ # replicate (13 + length tail) 0 \<and>
           hci_payload_size t = 0 \<and> cs_pin t = HIGH \<and> irqs t = rest \<and>
           (- 32768 \<le> sint result \<and> sint result < 32768 \<longrightarrow>
              sint (ucast result :: c_int) = sint result)"
proof -
  let ?s1 = "s\<lparr>hci_state := HCI_STATE_IDLE, cs_pin := LOW,
               irqs := replicate k2 False @ True # rest\<rparr>"
  let ?u = "socket_request domain type protocol ?s1"
  have w: "wait_assert K s = Some ?s1" by (rule wait_assert_run [OF assms(1)])
  have u: "?u = ?s1\<lparr>hci_pad := 1, hci_payload_size := 5,
        mosi := mosi ?s1 @ [1, 0, 17, 0, 0, 1, 0x01, 0x10, 12] @
                le32 domain @ le32 type @ le32 protocol\<rparr>"
    by (rule socket_request_eq)
  have idle: "hci_state ?u \<noteq> HCI_STATE_WAIT_ASSERT"
    unfolding u by (simp add: hci_constants)
  have irq: "irqs ?u = replicate k2 False @ True # rest" unfolding u by simp
  have intime: "\<forall>i\<le>k2. clock ?u (clock_reads ?u + 1 + i) \<le> clock ?u (clock_reads ?u) + 1000"
    unfolding u using assms(3) by simp
  have inc: "incoming_after (if hci_pad ?u \<noteq> 0 then 1 else 0) ?u
      (event_frame busy HCI_CMND_SOCKET args_size (status # le32 result @ tail))"
    unfolding u by (rule incoming_after_weaken [OF assms(4)]) (simp_all add: le32_def)
  have reads: "irq_reads ?u = replicate a LOW @ HIGH # lv" unfolding u using assms(2) by simp
  note r = u32_command_run [OF idle irq intime inc assms(5) assms(6) reads, of K]
  have "socket K domain type protocol s =
      Some (ucast result, snd (the (hci_end_command_receive_u32_result K HCI_CMND_SOCKET 1000 ?u)))"
    unfolding socket_eq w option.case r by simp
  moreover have "mosi (snd (the (hci_end_command_receive_u32_result K HCI_CMND_SOCKET 1000 ?u))) =
      mosi s @ [1, 0, 17, 0, 0, 1, 0x01, 0x10, 12] @
                   le32 domain @ le32 type @ le32 protocol @ [0] @
                   HCI_READ # replicate (13 + length tail) 0"
    unfolding r unfolding u by simp
  moreover have "hci_payload_size (snd (the (hci_end_command_receive_u32_result K HCI_CMND_SOCKET 1000 ?u))) = 0"
    "cs_pin (snd (the (hci_end_command_receive_u32_result K HCI_CMND_SOCKET 1000 ?u))) = HIGH"
    "irqs (snd (the (hci_end_command_receive_u32_result K HCI_CMND_SOCKET 1000 ?u))) = rest"
    unfolding r by simp_all
  moreover have "- 32768 \<le> sint result \<and> sint result < 32768 \<longrightarrow>
              sint (ucast result :: c_int) = sint result"
    by (simp add: sint_ucast_fits)
  ultimately show ?thesis by blast
qed

theorem socket_returns_reply_witness:
  "\<exists>t. socket sample_h 2 1 0
         (boot\<lparr>irqs := [True, True], irq_reads := [HIGH],
               miso := device (replicate 22 0 @
                 event_frame [0, 0, 0] HCI_CMND_SOCKET 5 (0 # le32 3 @ []))\<rparr>) = Some (3, t) \<and>
       mosi t = [1, 0, 17, 0, 0, 1, 0x01, 0x10, 12, 2, 0, 0, 0, 1, 0, 0, 0, 0, 0, 0, 0, 0,
                 3, 0, 0, 0, 0, 0, 0, 0, 0, 0, 0, 0, 0, 0]"
proof -
  let ?s = "boot\<lparr>irqs := [True, True], irq_reads := [HIGH],
               miso := device (replicate 22 0 @
                 event_frame [0, 0, 0] HCI_CMND_SOCKET 5 (0 # le32 3 @ []))\<rparr>"
  have 1: "irqs ?s = replicate 0 False @ True # replicate 0 False @ True # []" by simp
  have 2: "irq_reads ?s = replicate 0 LOW @ HIGH # []" by simp
  have 3: "\<forall>i\<le>0. clock ?s (clock_reads ?s + 1 + i) \<le> clock ?s (clock_reads ?s) + 1000"
    by (simp add: boot_def)
  have 4: "incoming_after 22 ?s (event_frame [0, 0, 0] HCI_CMND_SOCKET 5 (0 # le32 3 @ []))"
    by (rule incoming_after_device [where xs = "replicate 22 0" and ys = "[]"])
      (simp_all add: boot_def)
  have 5: "length [0 :: u8, 0, 0] = 3" "9 + length ([] :: u8 list) < 65536" by simp_all
  from socket_returns_reply [OF 1 2 3 4 5, of sample_h 2 1 0]
  obtain t where t: "socket sample_h 2 1 0 ?s = Some (ucast (3 :: u32), t)"
    "mosi t = mosi ?s @ [1, 0, 17, 0, 0, 1, 0x01, 0x10, 12] @
                   le32 2 @ le32 1 @ le32 0 @ [0] @
                   HCI_READ # replicate (13 + length ([] :: u8 list)) 0"
    by blast
  have m: "mosi ?s = []" by (simp add: boot_def)
  have l: "le32 2 = [2, 0, 0, 0]" "le32 1 = [1, 0, 0, 0]" "le32 0 = [0, 0, 0, 0]"
    by (simp_all add: le32_def)
  have "mosi t = [1, 0, 17, 0, 0, 1, 0x01, 0x10, 12, 2, 0, 0, 0, 1, 0, 0, 0, 0, 0, 0, 0, 0,
                 3, 0, 0, 0, 0, 0, 0, 0, 0, 0, 0, 0, 0, 0]"
    unfolding t(2) m l by (simp add: hci_constants numeral_eq_Suc)
  with t(1) show ?thesis by auto
qed

text \<open>
  The result as a 32-bit value is not what comes back in general: the reply that carries
  65536 makes \<^verbatim>\<open>socket\<close> return 0.
\<close>

theorem socket_returns_reply_counterexample:
  "\<not> Option.is_none (socket sample_h 2 1 0
         (boot\<lparr>irqs := [True, True], irq_reads := [HIGH],
               miso := device (replicate 22 0 @
                 event_frame [0, 0, 0] HCI_CMND_SOCKET 5 (0 # le32 65536))\<rparr>)) \<and>
   fst (the (socket sample_h 2 1 0
         (boot\<lparr>irqs := [True, True], irq_reads := [HIGH],
               miso := device (replicate 22 0 @
                 event_frame [0, 0, 0] HCI_CMND_SOCKET 5 (0 # le32 65536))\<rparr>))) = 0 \<and>
   sint (fst (the (socket sample_h 2 1 0
         (boot\<lparr>irqs := [True, True], irq_reads := [HIGH],
               miso := device (replicate 22 0 @
                 event_frame [0, 0, 0] HCI_CMND_SOCKET 5 (0 # le32 65536))\<rparr>)))) \<noteq>
     sint (65536 :: u32)"
  by code_simp

subsection \<open>Receiving from a socket\<close>

lemma recv_request_eq:
  "recv_request sd sz flags s =
     s\<lparr>hci_pad := 1, hci_payload_size := 5,
        mosi := mosi s @ [1, 0, 17, 0, 0, 1, 0x04, 0x10, 12] @
                le32 (scast sd) @ le32 (scast sz) @ le32 (scast flags)\<rparr>"
  by (simp add: recv_request_def command_header_eq hci_write_u32_le_eq hci_constants)

lemma recv_reply_eq:
  "recv_reply K sd sz flags s =
     (case wait_assert K s of
        None \<Rightarrow> None
      | Some s1 \<Rightarrow>
          (case hci_end_command_begin_receive K HCI_CMND_RECV 5000 (recv_request sd sz flags s1) of
             None \<Rightarrow> None
           | Some s5 \<Rightarrow>
               (let s6 = hci_read_status s5;
                    (return_sd, s7) = hci_read_u32_le s6;
                    (return_length, s8) = hci_read_u32_le s7;
                    (return_flags, s9) = hci_read_u32_le s8
                in case hci_end_receive s9 of
                     None \<Rightarrow> None
                   | Some s10 \<Rightarrow> Some (return_length, s10))))"
  by (simp add: recv_reply_def hci_begin_command_def recv_request_def Let_def
      split: option.splits)

lemma unat_sub_4:
  "4 \<le> unat (w :: u16) \<Longrightarrow> unat (w - 4) = unat w - 4"
  using unat_sub [of 4 w] by (simp add: word_le_nat_alt)

lemma recv_reply_body_run:
  assumes idle: "hci_state u \<noteq> HCI_STATE_WAIT_ASSERT"
    and irq: "irqs u = replicate k False @ True # rest"
    and intime: "\<forall>i\<le>k. clock u (clock_reads u + 1 + i) \<le> clock u (clock_reads u) + timeout"
    and inc: "incoming_after (if hci_pad u \<noteq> 0 then 1 else 0) u
                (event_frame busy event args_size
                   (status # le32 rsd @ le32 L @ le32 rflags @ tail))"
    and busy: "length busy = 3" and len: "17 + length tail < 65536"
    and reads: "irq_reads u = replicate a LOW @ HIGH # lv"
  shows "(case hci_end_command_begin_receive K event timeout u of
             None \<Rightarrow> None
           | Some s5 \<Rightarrow>
               (let s6 = hci_read_status s5;
                    (return_sd, s7) = hci_read_u32_le s6;
                    (return_length, s8) = hci_read_u32_le s7;
                    (return_flags, s9) = hci_read_u32_le s8
                in case hci_end_receive s9 of
                     None \<Rightarrow> None
                   | Some s10 \<Rightarrow> Some (return_length, s10))) =
     Some (L,
       u\<lparr>hci_pending_event := event, hci_pending_event_available := 1,
         hci_data_available := 0, clock_reads := clock_reads u + k + 3,
         mosi := mosi u @ (if hci_pad u \<noteq> 0 then [0] else []) @
                 HCI_READ # replicate (21 + length tail) 0,
         cs_pin := HIGH, hci_payload_size := 0, irqs := rest, irq_reads := lv,
         callbacks := callbacks u @
           (if clock u (clock_reads u) + timeout < clock u (clock_reads u + k + 2)
            then [(HCI_EVNT_CC3000_LOCKED K, 0)] else [])\<rparr>)"
proof -
  define m where "m = length tail"
  define P :: u16 where
    "P = of_nat (length (status # le32 rsd @ le32 L @ le32 rflags @ tail))"
  let ?body = "status # le32 rsd @ le32 L @ le32 rflags @ tail"
  let ?pad = "if hci_pad u \<noteq> 0 then [0] else [] :: u8 list"
  let ?cb = "callbacks u @
           (if clock u (clock_reads u) + timeout < clock u (clock_reads u + k + 2)
            then [(HCI_EVNT_CC3000_LOCKED K, 0)] else [])"
  let ?s1 = "u\<lparr>hci_pending_event := event, hci_pending_event_available := 1,
             hci_data_available := 0, clock_reads := clock_reads u + k + 3,
             mosi := mosi u @ ?pad @ [HCI_READ, 0, 0, 0, 0, 0, 0, 0, 0],
             cs_pin := LOW, hci_payload_size := P, irqs := rest,
             callbacks := ?cb\<rparr>"
  have lb: "length ?body = 13 + m" by (simp add: le32_def m_def)
  from len have len': "4 + length ?body < 65536" by (simp add: le32_def)
  have r: "hci_end_command_begin_receive K event timeout u = Some ?s1"
    unfolding P_def by (rule reply_run [OF idle irq intime inc busy len'])
  have i1: "incoming ?s1 ?body"
    by (rule body_after_reply [OF inc busy]) (simp_all split: if_splits)
  have "unat (of_nat (13 + m) :: u16) = 13 + m"
    by (rule unat_of_nat_u16) (use len in \<open>simp add: m_def\<close>)
  then have uP: "unat P = 13 + m" unfolding P_def lb .
  then have p1: "unat (hci_payload_size ?s1) = 13 + m" by simp
  from uP have nz: "hci_payload_size ?s1 \<noteq> 0" by auto
  let ?s2 = "?s1\<lparr>hci_payload_size := hci_payload_size ?s1 - 1, mosi := mosi ?s1 @ [0]\<rparr>"
  have st: "hci_read_status ?s1 = ?s2"
    using hci_read_u8_run [OF i1 nz] by (simp add: hci_read_status_def)
  have i2: "incoming ?s2 (le32 rsd @ le32 L @ le32 rflags @ tail)"
    using incoming_advance [of ?s1 "[status]" "le32 rsd @ le32 L @ le32 rflags @ tail" ?s2] i1
    by simp
  have p2: "unat (hci_payload_size ?s2) = 12 + m"
    using p1 nz by (simp add: unat_minus_one)
  then have ge2: "4 \<le> unat (hci_payload_size ?s2)" by simp
  let ?s3 = "?s2\<lparr>hci_payload_size := hci_payload_size ?s2 - 4, mosi := mosi ?s2 @ [0, 0, 0, 0]\<rparr>"
  have rd1: "hci_read_u32_le ?s2 = (rsd, ?s3)"
    by (rule hci_read_u32_le_run [OF i2 ge2])
  have i3: "incoming ?s3 (le32 L @ le32 rflags @ tail)"
    using incoming_advance [of ?s2 "le32 rsd" "le32 L @ le32 rflags @ tail" ?s3] i2
    by (simp add: le32_def)
  have p3: "unat (hci_payload_size ?s3) = 8 + m"
    using unat_sub_4 [OF ge2] p2 by simp
  then have ge3: "4 \<le> unat (hci_payload_size ?s3)" by simp
  let ?s4 = "?s3\<lparr>hci_payload_size := hci_payload_size ?s3 - 4, mosi := mosi ?s3 @ [0, 0, 0, 0]\<rparr>"
  have rd2: "hci_read_u32_le ?s3 = (L, ?s4)"
    by (rule hci_read_u32_le_run [OF i3 ge3])
  have i4: "incoming ?s4 (le32 rflags @ tail)"
    using incoming_advance [of ?s3 "le32 L" "le32 rflags @ tail" ?s4] i3
    by (simp add: le32_def)
  have p4: "unat (hci_payload_size ?s4) = 4 + m"
    using unat_sub_4 [OF ge3] p3 by simp
  then have ge4: "4 \<le> unat (hci_payload_size ?s4)" by simp
  let ?s5 = "?s4\<lparr>hci_payload_size := hci_payload_size ?s4 - 4, mosi := mosi ?s4 @ [0, 0, 0, 0]\<rparr>"
  have rd3: "hci_read_u32_le ?s4 = (rflags, ?s5)"
    by (rule hci_read_u32_le_run [OF i4 ge4])
  have p5: "unat (hci_payload_size ?s5) = m"
    using unat_sub_4 [OF ge4] p4 by simp
  have er: "hci_end_receive ?s5 =
      Some (?s5\<lparr>hci_payload_size := 0, mosi := mosi ?s5 @ replicate m 0, cs_pin := HIGH,
                 irq_reads := lv\<rparr>)"
    unfolding hci_end_receive_eq p5 using reads by (simp add: wait_irq_deassert_run)
  have rep: "[HCI_READ, 0, 0, 0, 0, 0, 0, 0, 0] @ [0] @ [0, 0, 0, 0] @ [0, 0, 0, 0] @
      [0, 0, 0, 0] @ replicate m 0 = HCI_READ # replicate (21 + m) (0 :: u8)"
    by (simp add: numeral_eq_Suc)
  show ?thesis
    unfolding r option.case st rd1 rd2 rd3 Let_def prod.case er
    using rep unfolding m_def by simp
qed

lemma read_array_run:
  "incoming s payload \<Longrightarrow> hci_payload_size s = of_nat (length payload) \<Longrightarrow>
   length payload < 65536 \<Longrightarrow>
   hci_read_array n s =
     (take n payload @ replicate (n - length payload) 0,
      s\<lparr>hci_payload_size := of_nat (length payload - n),
        mosi := mosi s @ replicate (min n (length payload)) 0\<rparr>)"
proof (induction n arbitrary: s payload)
  case 0
  then show ?case by simp
next
  case (Suc n)
  show ?case
  proof (cases payload)
    case Nil
    with Suc.prems have "hci_payload_size s = 0" by simp
    from hci_read_array_zero [OF this] Nil Suc.prems(2) show ?thesis
      by (simp del: hci_read_array.simps)
  next
    case (Cons b bs)
    let ?s1 = "s\<lparr>hci_payload_size := hci_payload_size s - 1, mosi := mosi s @ [0]\<rparr>"
    from Suc.prems(3) Cons have lt: "Suc (length bs) < 65536" by simp
    have "unat (of_nat (Suc (length bs)) :: u16) = Suc (length bs)"
      by (rule unat_of_nat_u16) (rule lt)
    with Suc.prems(2) Cons have up: "unat (hci_payload_size s) = Suc (length bs)" by simp
    then have nz: "hci_payload_size s \<noteq> 0" by auto
    from Suc.prems(1) Cons have i: "incoming s (b # bs)" by simp
    have r: "hci_read_u8 s = (b, ?s1)" by (rule hci_read_u8_run [OF i nz])
    have i1: "incoming ?s1 bs"
      using incoming_advance [of s "[b]" bs ?s1] i by simp
    have p1: "hci_payload_size ?s1 = of_nat (length bs)"
      using Suc.prems(2) Cons by simp
    from lt have lt1: "length bs < 65536" by simp
    note ih = Suc.IH [OF i1 p1 lt1]
    show ?thesis
      unfolding hci_read_array.simps r prod.case Let_def ih
      using Cons by (simp add: replicate_append_same)
  qed
qed


lemma recv_payload_run:
  assumes flag: "hci_data_available v = 0"
    and idle: "hci_state v \<noteq> HCI_STATE_WAIT_ASSERT"
    and irq: "irqs v = replicate k False @ True # rest"
    and inc: "incoming v (data_frame busy data_type args payload_size payload)"
    and busy: "length busy = 3" and la: "length args < 256"
    and len: "5 + length args + length payload < 65536"
    and reads: "irq_reads v = replicate b LOW @ HIGH # lv"
    and pos: "0 <s L"
  shows "recv_payload K L sz v =
     Some ((ucast (if scast sz <s L then scast sz else L),
            take (nat (sint (if scast sz <s L then scast sz else L))) payload @
            replicate (nat (sint (if scast sz <s L then scast sz else L)) - length payload) 0),
       v\<lparr>cs_pin := HIGH,
         mosi := mosi v @ HCI_READ # replicate (9 + length args + length payload) 0,
         hci_payload_size := 0, hci_data_available := 1, irqs := rest, irq_reads := lv\<rparr>)"
proof -
  define n where "n = nat (sint (if scast sz <s L then scast sz else L))"
  define q where "q = length payload"
  define Q :: u16 where "Q = of_nat (length payload - n)"
  let ?w0 = "v\<lparr>cs_pin := LOW,
             mosi := mosi v @ [HCI_READ, 0, 0, 0, 0, 0, 0, 0, 0, 0] @ replicate (length args) 0,
             hci_payload_size := of_nat (length payload), hci_data_available := 1\<rparr>"
  let ?w = "v\<lparr>cs_pin := LOW,
             mosi := mosi v @ [HCI_READ, 0, 0, 0, 0, 0, 0, 0, 0, 0] @ replicate (length args) 0,
             hci_payload_size := of_nat (length payload), hci_data_available := 1,
             irqs := rest\<rparr>"
  have wd: "hci_wait_data K v = Some ?w"
    by (rule hci_wait_data_run [OF flag idle irq inc busy la len])
  have iw: "incoming ?w payload"
    using hci_irq_data(2) [OF idle inc busy la len] unfolding incoming_def by simp
  have pw: "hci_payload_size ?w = of_nat (length payload)" by simp
  from len have lq: "length payload < 65536" by simp
  let ?x = "?w\<lparr>hci_payload_size := Q,
        mosi := mosi ?w @ replicate (min n (length payload)) 0\<rparr>"
  have ra: "hci_read_array n ?w =
      (take n payload @ replicate (n - length payload) 0, ?x)"
    unfolding Q_def by (rule read_array_run [OF iw pw lq])
  have "unat (of_nat (length payload - n) :: u16) = length payload - n"
    by (rule unat_of_nat_u16) (use lq in simp)
  then have ux: "unat (hci_payload_size ?x) = length payload - n" by (simp add: Q_def)
  have er: "hci_end_receive ?x =
      Some (?x\<lparr>hci_payload_size := 0,
                 mosi := mosi ?x @ replicate (length payload - n) 0, cs_pin := HIGH,
                 irq_reads := lv\<rparr>)"
    unfolding hci_end_receive_eq ux using reads by (simp add: wait_irq_deassert_run)
  have "replicate (min n q) (0 :: u8) @ replicate (q - n) 0 = replicate q 0"
    by (simp add: replicate_add [symmetric])
  then have rep: "[HCI_READ, 0, 0, 0, 0, 0, 0, 0, 0, 0] @ replicate (length args) 0 @
      replicate (min n (length payload)) 0 @ replicate (length payload - n) 0 =
      HCI_READ # replicate (9 + length args + length payload) (0 :: u8)"
    unfolding q_def by (simp add: numeral_eq_Suc replicate_add)
  show ?thesis
    unfolding recv_payload_def n_def [symmetric]
    using pos unfolding wd option.case Let_def n_def [symmetric] ra prod.case er
    using rep by simp
qed

text \<open>
  C7. A run of \<^verbatim>\<open>recv\<close> in which the interrupt line fires for the handshake, for the
  reply (within the deadline) and for the data message, the reply reporting a payload
  length \<open>L > 0\<close>. The call returns. If \<open>L\<close> is at most the buffer size, it has stored
  \<open>L\<close> bytes and returns \<open>L\<close>; if \<open>L\<close> exceeds the buffer size, it has stored as many
  bytes as the buffer holds and returns the buffer size. The bytes stored are the first
  bytes of the payload of the data message, in order (zeros past its end), and in both
  cases the read transaction has taken the whole data message from the link: the bytes not
  stored are clocked out and dropped.
\<close>

theorem recv_delivers:
  assumes "irqs s = replicate k1 False @ True # replicate k2 False @ True #
                    replicate k3 False @ True # rest"
    and "irq_reads s = replicate a LOW @ HIGH # replicate b LOW @ HIGH # lv"
    and "\<forall>i\<le>k2. clock s (clock_reads s + 1 + i) \<le> clock s (clock_reads s) + 5000"
    and "incoming_after 22 s
           (event_frame busy1 HCI_CMND_RECV args_size
              (status # le32 rsd @ le32 L @ le32 rflags @ tail))"
    and "incoming_after (44 + length tail) s (data_frame busy2 data_type args payload_size payload)"
    and "length busy1 = 3" and "17 + length tail < 65536"
    and "length busy2 = 3" and "length args < 256"
    and "5 + length args + length payload < 65536"
    and "0 <s L"
  shows "\<exists>ret bytes t.
           recv K sd sz flags s = Some ((ret, bytes), t) \<and>
           bytes = take (length bytes) payload @ replicate (length bytes - length payload) 0 \<and>
           (L \<le>s scast sz \<longrightarrow> length bytes = nat (sint L) \<and> sint ret = sint L) \<and>
           (scast sz <s L \<longrightarrow> length bytes = nat (sint sz) \<and> ret = sz) \<and>
           mosi t = mosi s @ [1, 0, 17, 0, 0, 1, 0x04, 0x10, 12] @
                   le32 (scast sd) @ le32 (scast sz) @ le32 (scast flags) @ [0] @
                   HCI_READ # replicate (21 + length tail) 0 @
                   HCI_READ # replicate (9 + length args + length payload) 0 \<and>
           hci_payload_size t = 0 \<and> cs_pin t = HIGH \<and> irqs t = rest"
proof -
  define L1 where "L1 = (if scast sz <s L then scast sz else L)"
  define n where "n = nat (sint L1)"
  let ?bytes = "take n payload @ replicate (n - length payload) 0"
  let ?r2 = "replicate k2 False @ True # replicate k3 False @ True # rest"
  let ?s1 = "s\<lparr>hci_state := HCI_STATE_IDLE, cs_pin := LOW, irqs := ?r2\<rparr>"
  let ?u = "recv_request sd sz flags ?s1"
  have w: "wait_assert K s = Some ?s1" by (rule wait_assert_run [OF assms(1)])
  have u: "?u = ?s1\<lparr>hci_pad := 1, hci_payload_size := 5,
        mosi := mosi ?s1 @ [1, 0, 17, 0, 0, 1, 0x04, 0x10, 12] @
                le32 (scast sd) @ le32 (scast sz) @ le32 (scast flags)\<rparr>"
    by (rule recv_request_eq)
  have idle: "hci_state ?u \<noteq> HCI_STATE_WAIT_ASSERT"
    unfolding u by (simp add: hci_constants)
  have irq: "irqs ?u = replicate k2 False @ True # replicate k3 False @ True # rest"
    unfolding u by simp
  have intime: "\<forall>i\<le>k2. clock ?u (clock_reads ?u + 1 + i) \<le> clock ?u (clock_reads ?u) + 5000"
    unfolding u using assms(3) by simp
  have inc: "incoming_after (if hci_pad ?u \<noteq> 0 then 1 else 0) ?u
      (event_frame busy1 HCI_CMND_RECV args_size
         (status # le32 rsd @ le32 L @ le32 rflags @ tail))"
    unfolding u by (rule incoming_after_weaken [OF assms(4)]) (simp_all add: le32_def)
  have reads: "irq_reads ?u = replicate a LOW @ HIGH # replicate b LOW @ HIGH # lv"
    unfolding u using assms(2) by simp
  let ?v = "?u\<lparr>hci_pending_event := HCI_CMND_RECV, hci_pending_event_available := 1,
         hci_data_available := 0, clock_reads := clock_reads ?u + k2 + 3,
         mosi := mosi ?u @ (if hci_pad ?u \<noteq> 0 then [0] else []) @
                 HCI_READ # replicate (21 + length tail) 0,
         cs_pin := HIGH, hci_payload_size := 0,
         irqs := replicate k3 False @ True # rest,
         irq_reads := replicate b LOW @ HIGH # lv,
         callbacks := callbacks ?u @
           (if clock ?u (clock_reads ?u) + 5000 < clock ?u (clock_reads ?u + k2 + 3 - 1)
            then [(HCI_EVNT_CC3000_LOCKED K, 0)] else [])\<rparr>"
  have rr: "recv_reply K sd sz flags s = Some (L, ?v)"
    unfolding recv_reply_eq w option.case
    using recv_reply_body_run [OF idle irq intime inc assms(6) assms(7) reads, of K]
    by simp
  have vflag: "hci_data_available ?v = 0" by simp
  have vidle: "hci_state ?v \<noteq> HCI_STATE_WAIT_ASSERT" unfolding u by (simp add: hci_constants)
  have virq: "irqs ?v = replicate k3 False @ True # rest" by simp
  have vreads: "irq_reads ?v = replicate b LOW @ HIGH # lv" by simp
  have "incoming_after 0 ?v (data_frame busy2 data_type args payload_size payload)"
    unfolding u by (rule incoming_after_weaken [OF assms(5)]) (simp_all add: le32_def)
  then have vinc: "incoming ?v (data_frame busy2 data_type args payload_size payload)"
    by (simp only: incoming_after_0)
  note rp = recv_payload_run [OF vflag vidle virq vinc assms(8) assms(9) assms(10) vreads assms(11),
      of K sz]
  let ?t = "?v\<lparr>cs_pin := HIGH,
         mosi := mosi ?v @ HCI_READ # replicate (9 + length args + length payload) 0,
         hci_payload_size := 0, hci_data_available := 1, irqs := rest, irq_reads := lv\<rparr>"
  have r: "recv K sd sz flags s = Some ((ucast L1, ?bytes), ?t)"
    unfolding recv_def rr option.case prod.case rp L1_def n_def ..
  have lb: "length ?bytes = n" by simp
  have b: "?bytes = take (length ?bytes) payload @ replicate (length ?bytes - length payload) 0"
    unfolding lb ..
  have c1: "length ?bytes = nat (sint L) \<and> sint (ucast L1 :: c_int) = sint L" if "L \<le>s scast sz"
  proof -
    from that have e: "L1 = L" by (auto simp: L1_def word_sless_alt word_sle_eq)
    from that have "sint L \<le> sint sz" by (simp add: word_sle_eq sint_scast_up)
    moreover have "sint sz < 32768" using sint_lt [of sz] by simp
    moreover from assms(11) have "0 < sint L" by (simp add: word_sless_alt)
    ultimately have "sint (ucast L :: c_int) = sint L" by (intro sint_ucast_fits) simp_all
    then show ?thesis unfolding lb n_def e by simp
  qed
  have c2: "length ?bytes = nat (sint sz) \<and> (ucast L1 :: c_int) = sz" if "scast sz <s L"
  proof -
    from that have e: "L1 = scast sz" by (simp add: L1_def)
    show ?thesis unfolding lb n_def e by (simp add: sint_scast_up ucast_scast_id)
  qed
  have m: "mosi ?t = mosi s @ [1, 0, 17, 0, 0, 1, 0x04, 0x10, 12] @
                   le32 (scast sd) @ le32 (scast sz) @ le32 (scast flags) @ [0] @
                   HCI_READ # replicate (21 + length tail) 0 @
                   HCI_READ # replicate (9 + length args + length payload) 0"
    unfolding u by simp
  have o: "hci_payload_size ?t = 0" "cs_pin ?t = HIGH" "irqs ?t = rest" by simp_all
  from r b c1 c2 m o show ?thesis by blast
qed


theorem recv_delivers_witness:
  "(\<exists>t. recv sample_h 1 100 0
     (boot\<lparr>irqs := [True, True, True], irq_reads := [HIGH, HIGH],
      miso := device (replicate 22 0 @
        event_frame [0, 0, 0] HCI_CMND_RECV 13 (0 # le32 1 @ le32 40 @ le32 0 @ []) @
        data_frame [0, 0, 0] 0x85 [7, 7] 40
          [1, 2, 3, 4, 5, 6, 7, 8, 9, 10, 11, 12, 13, 14, 15, 16, 17, 18, 19, 20,
    21, 22, 23, 24, 25, 26, 27, 28, 29, 30, 31, 32, 33, 34, 35, 36, 37, 38, 39, 40])\<rparr>) =
     Some ((40, [1, 2, 3, 4, 5, 6, 7, 8, 9, 10, 11, 12, 13, 14, 15, 16, 17, 18, 19, 20,
    21, 22, 23, 24, 25, 26, 27, 28, 29, 30, 31, 32, 33, 34, 35, 36, 37, 38, 39, 40]), t)) \<and>
   (\<exists>t. recv sample_h 1 8 0
     (boot\<lparr>irqs := [True, True, True], irq_reads := [HIGH, HIGH],
      miso := device (replicate 22 0 @
        event_frame [0, 0, 0] HCI_CMND_RECV 13 (0 # le32 1 @ le32 40 @ le32 0 @ []) @
        data_frame [0, 0, 0] 0x85 [7, 7] 40
          [1, 2, 3, 4, 5, 6, 7, 8, 9, 10, 11, 12, 13, 14, 15, 16, 17, 18, 19, 20,
    21, 22, 23, 24, 25, 26, 27, 28, 29, 30, 31, 32, 33, 34, 35, 36, 37, 38, 39, 40])\<rparr>) =
     Some ((8, [1, 2, 3, 4, 5, 6, 7, 8]), t) \<and>
     mosi t = [1, 0, 17, 0, 0, 1, 0x04, 0x10, 12, 1, 0, 0, 0, 8, 0, 0, 0, 0, 0, 0, 0, 0] @
              HCI_READ # replicate 21 0 @ HCI_READ # replicate 51 0)"
proof -
  let ?pay = "[1, 2, 3, 4, 5, 6, 7, 8, 9, 10, 11, 12, 13, 14, 15, 16, 17, 18, 19, 20,
    21, 22, 23, 24, 25, 26, 27, 28, 29, 30, 31, 32, 33, 34, 35, 36, 37, 38, 39, 40] :: u8 list"
  let ?s = "(boot\<lparr>irqs := [True, True, True], irq_reads := [HIGH, HIGH],
      miso := device (replicate 22 0 @
        event_frame [0, 0, 0] HCI_CMND_RECV 13 (0 # le32 1 @ le32 40 @ le32 0 @ []) @
        data_frame [0, 0, 0] 0x85 [7, 7] 40
          [1, 2, 3, 4, 5, 6, 7, 8, 9, 10, 11, 12, 13, 14, 15, 16, 17, 18, 19, 20,
    21, 22, 23, 24, 25, 26, 27, 28, 29, 30, 31, 32, 33, 34, 35, 36, 37, 38, 39, 40])\<rparr>)"
  have 1: "irqs ?s = replicate 0 False @ True # replicate 0 False @ True #
                    replicate 0 False @ True # []" by simp
  have 2: "irq_reads ?s = replicate 0 LOW @ HIGH # replicate 0 LOW @ HIGH # []" by simp
  have 3: "\<forall>i\<le>0. clock ?s (clock_reads ?s + 1 + i) \<le> clock ?s (clock_reads ?s) + 5000"
    by (simp add: boot_def)
  have 4: "incoming_after 22 ?s
      (event_frame [0, 0, 0] HCI_CMND_RECV 13 (0 # le32 1 @ le32 40 @ le32 0 @ []))"
    by (rule incoming_after_device [where xs = "replicate 22 0" and
          ys = "data_frame [0, 0, 0] 0x85 [7, 7] 40 ?pay"]) (simp_all add: boot_def)
  have 5: "incoming_after (44 + length ([] :: u8 list)) ?s
      (data_frame [0, 0, 0] 0x85 [7, 7] 40 ?pay)"
    by (rule incoming_after_device [where xs = "replicate 22 0 @
          event_frame [0, 0, 0] HCI_CMND_RECV 13 (0 # le32 1 @ le32 40 @ le32 0 @ [])" and
          ys = "[]"]) (simp_all add: boot_def event_frame_def be16_def le16_def le32_def)
  have 6: "length [0 :: u8, 0, 0] = 3" "17 + length ([] :: u8 list) < 65536"
    "length [7 :: u8, 7] < 256" "5 + length [7 :: u8, 7] + length ?pay < 65536"
    "0 <s (40 :: c_long)"
    by (simp_all add: word_sless_alt)
  have m: "mosi ?s = []" by (simp add: boot_def)
  have big: "(40 :: c_long) \<le>s scast (100 :: c_int)" by (simp add: word_sle_eq)
  have small: "scast (8 :: c_int) <s (40 :: c_long)" by (simp add: word_sless_alt)
  from recv_delivers [OF 1 2 3 4 5 6(1) 6(2) 6(1) 6(3) 6(4) 6(5), of sample_h 1 100 0] big
  obtain ret bytes t where a: "recv sample_h 1 100 0 ?s = Some ((ret, bytes), t)"
    "bytes = take (length bytes) ?pay @ replicate (length bytes - length ?pay) 0"
    "length bytes = nat (sint (40 :: c_long))" "sint ret = sint (40 :: c_long)"
    by blast
  from a(3) have la: "length bytes = 40" by simp
  from a(2) have ba: "bytes = ?pay" unfolding la by simp
  from a(4) have "sint ret = sint (40 :: c_int)" by simp
  then have ra: "ret = 40" by (rule signed_word_eqI)
  from recv_delivers [OF 1 2 3 4 5 6(1) 6(2) 6(1) 6(3) 6(4) 6(5), of sample_h 1 8 0] small
  obtain ret' bytes' t' where b: "recv sample_h 1 8 0 ?s = Some ((ret', bytes'), t')"
    "bytes' = take (length bytes') ?pay @ replicate (length bytes' - length ?pay) 0"
    "length bytes' = nat (sint (8 :: c_int))" "ret' = 8"
    "mosi t' = mosi ?s @ [1, 0, 17, 0, 0, 1, 0x04, 0x10, 12] @
                   le32 (scast (1 :: c_int)) @ le32 (scast (8 :: c_int)) @
                   le32 (scast (0 :: c_int)) @ [0] @
                   HCI_READ # replicate (21 + length ([] :: u8 list)) 0 @
                   HCI_READ # replicate (9 + length [7 :: u8, 7] + length ?pay) 0"
    by blast
  from b(3) have lb: "length bytes' = 8" by simp
  from b(2) have bb: "bytes' = [1, 2, 3, 4, 5, 6, 7, 8]" unfolding lb by simp
  have l: "le32 (scast (1 :: c_int)) = [1, 0, 0, 0]" "le32 (scast (8 :: c_int)) = [8, 0, 0, 0]"
    "le32 (scast (0 :: c_int)) = [0, 0, 0, 0]"
    by (simp_all add: le32_def)
  from b(5) have mb: "mosi t' =
      [1, 0, 17, 0, 0, 1, 0x04, 0x10, 12, 1, 0, 0, 0, 8, 0, 0, 0, 0, 0, 0, 0, 0] @
      HCI_READ # replicate 21 0 @ HCI_READ # replicate 51 0"
    unfolding m l by simp
  from a(1) ba ra b(1) b(4) bb mb show ?thesis by blast
qed

subsection \<open>What a read transaction takes from the link\<close>

lemma discard_read_u8: "discard_unread (snd (hci_read_u8 s)) = discard_unread s"
proof (cases "hci_payload_size s = 0")
  case True
  then show ?thesis by (simp add: hci_read_u8_eq)
next
  case False
  then show ?thesis by (subst (2) discard_unread.simps) simp
qed

lemma discard_read_u16: "discard_unread (snd (hci_read_u16_le s)) = discard_unread s"
  by (simp add: hci_read_u16_le_def split_def Let_def discard_read_u8)

lemma discard_read_u32: "discard_unread (snd (hci_read_u32_le s)) = discard_unread s"
  by (simp add: hci_read_u32_le_def split_def Let_def discard_read_u8)

lemma mosi_discard: "mosi (discard_unread s) = mosi s @ replicate (unat (hci_payload_size s)) 0"
  by (simp add: discard_unread_eq [OF refl])

lemma mosi_discard_free_buff_loop:
  "mosi (discard_unread (free_buff_loop n s)) = mosi (discard_unread s)"
proof (induction n arbitrary: s)
  case 0
  then show ?case by simp
next
  case (Suc n)
  let ?s2 = "snd (hci_read_u16_le (snd (hci_read_u16_le s)))"
  let ?c = "fst (hci_read_u16_le (snd (hci_read_u16_le s)))"
  have "mosi (discard_unread (free_buff_loop (Suc n) s)) =
      mosi (discard_unread (?s2\<lparr>hci_available_buffer_count :=
              hci_available_buffer_count ?s2 + ucast ?c\<rparr>))"
    by (simp add: split_def Let_def Suc.IH)
  also have "\<dots> = mosi (discard_unread ?s2)" by (simp add: mosi_discard)
  also have "\<dots> = mosi (discard_unread s)" by (simp add: discard_read_u16)
  finally show ?case .
qed

lemma mosi_discard_unsolicited:
  "mosi (discard_unread (snd (unsolicited_event K e s))) = mosi (discard_unread s)"
proof -
  have upd: "mosi (discard_unread (s\<lparr>wifi_dhcp := 1\<rparr>)) = mosi (discard_unread s)"
    by (simp add: mosi_discard)
  let ?r5 = "snd (hci_read_u8 (snd (hci_read_u8 (snd (hci_read_u8 (snd (hci_read_u8
               (snd (hci_read_u8 (s\<lparr>wifi_dhcp := 1\<rparr>))))))))))"
  have d5: "mosi (discard_unread (?r5\<lparr>ip_addr := a\<rparr>)) = mosi (discard_unread s)" for a
  proof -
    have "mosi (discard_unread (?r5\<lparr>ip_addr := a\<rparr>)) = mosi (discard_unread ?r5)"
      by (simp only: mosi_discard) simp
    also have "\<dots> = mosi (discard_unread (s\<lparr>wifi_dhcp := 1\<rparr>))"
      by (simp only: discard_read_u8)
    finally show ?thesis by (simp only: upd)
  qed
  have fb: "mosi (discard_unread (free_buff_loop n (snd (hci_read_u16_le (snd (hci_read_u8 s)))))) =
      mosi (discard_unread s)" for n
    by (simp only: mosi_discard_free_buff_loop discard_read_u16 discard_read_u8)
  have cw: "mosi (discard_unread (snd (hci_read_u32_le (snd (hci_read_u8 s))))) =
      mosi (discard_unread s)"
    by (simp only: discard_read_u32 discard_read_u8)
  have c1: "mosi (discard_unread (s\<lparr>wifi_connected := 1\<rparr>)) = mosi (discard_unread s)"
    "mosi (discard_unread (s\<lparr>wifi_connected := 0, wifi_dhcp := 0\<rparr>)) = mosi (discard_unread s)"
    by (simp_all add: mosi_discard)
  show ?thesis
    unfolding unsolicited_event_def split_def Let_def
    by (simp only: if_distrib [of snd] if_distrib [of discard_unread] if_distrib [of mosi]
        snd_conv d5 fb cw c1 if_cancel)
qed

lemma unsolicited_event_arg:
  "fst (unsolicited_event K e s) =
     (if e = HCI_EVNT_WLAN_UNSOL_TCP_CLOSE_WAIT K \<and>
         e \<notin> {HCI_EVNT_WLAN_UNSOL_CONNECT K, HCI_EVNT_WLAN_UNSOL_DISCONNECT K,
               HCI_EVNT_WLAN_UNSOL_DHCP K}
      then fst (hci_read_u32_le (snd (hci_read_u8 s))) else 0)"
  by (simp add: unsolicited_event_def split_def Let_def)

lemma event_header_incoming:
  assumes "incoming s (le16 code @ [args_size, status] @ le32 v @ rest)"
    and "8 \<le> unat (hci_payload_size s)"
  shows "fst (hci_read_u16_le s) = code"
    and "fst (hci_read_u32_le (snd (hci_read_u8 (snd (hci_read_u8 (snd (hci_read_u16_le s))))))) = v"
proof -
  let ?s1 = "snd (hci_read_u16_le s)"
  let ?s2 = "snd (hci_read_u8 ?s1)"
  let ?s3 = "snd (hci_read_u8 ?s2)"
  from assms(2) have 2: "2 \<le> unat (hci_payload_size s)" by simp
  note a = read_u16_incoming [OF assms(1) 2]
  show "fst (hci_read_u16_le s) = code" by (rule a(1))
  from a(2) have i1: "incoming ?s1 (args_size # status # le32 v @ rest)" by simp
  from a(3) assms(2) have p1: "6 \<le> unat (hci_payload_size ?s1)" by simp
  then have nz1: "hci_payload_size ?s1 \<noteq> 0" by auto
  note b = read_u8_incoming [OF i1 nz1]
  from b(3) p1 have p2: "5 \<le> unat (hci_payload_size ?s2)" by simp
  then have nz2: "hci_payload_size ?s2 \<noteq> 0" by auto
  note c = read_u8_incoming [OF b(2) nz2]
  from c(3) p2 have p3: "4 \<le> unat (hci_payload_size ?s3)" by simp
  from hci_read_u32_le_run [OF c(2) p3] show "fst (hci_read_u32_le ?s3) = v" by simp
qed


subsection \<open>The two paths of the event dispatcher\<close>

text \<open>
  C5. An event whose code is the awaited one only sets the flag: the state returned is
  the state after the three header bytes (code and argument length) with
  \<open>hci_pending_event_available\<close> set, so nothing more is read from the link, the callback
  log, the select line and the interrupt-line readings are as before. Any other code,
  whether or not the \<^verbatim>\<open>switch\<close> knows it, adds exactly one entry to the callback log:
  the code with the argument, which is the 32-bit value after the status byte for
  \<^verbatim>\<open>HCI_EVNT_WLAN_UNSOL_TCP_CLOSE_WAIT\<close> and 0 for every other code. Then
  \<^verbatim>\<open>hci_end_receive\<close> has clocked out what was left of the frame, so that the link has
  taken exactly the declared payload, the payload counter is zero and the select line
  high; the call returns unless the interrupt line never reads high. Code and argument
  are the bytes of the frame: for an incoming frame of at least 8 bytes they are its first
  two bytes and its bytes 4 to 7, low byte first.
\<close>

theorem hci_dispatch_event_paths:
  "(fst (hci_read_u16_le s) = hci_pending_event s \<longrightarrow>
      (\<exists>t. hci_dispatch_event K s = Some t \<and>
           t = (snd (hci_read_u8 (snd (hci_read_u16_le s))))\<lparr>hci_pending_event_available := 1\<rparr> \<and>
           callbacks t = callbacks s \<and> cs_pin t = cs_pin s \<and> irq_reads t = irq_reads s \<and>
           length (mosi t) \<le> length (mosi s) + 3)) \<and>
   (fst (hci_read_u16_le s) \<noteq> hci_pending_event s \<longrightarrow>
      (hci_dispatch_event K s = None \<longleftrightarrow> HIGH \<notin> set (irq_reads s)) \<and>
      (\<forall>t. hci_dispatch_event K s = Some t \<longrightarrow>
           callbacks t =
             callbacks s @
               [(fst (hci_read_u16_le s),
                 if fst (hci_read_u16_le s) = HCI_EVNT_WLAN_UNSOL_TCP_CLOSE_WAIT K \<and>
                    fst (hci_read_u16_le s) \<notin>
                      {HCI_EVNT_WLAN_UNSOL_CONNECT K, HCI_EVNT_WLAN_UNSOL_DISCONNECT K,
                       HCI_EVNT_WLAN_UNSOL_DHCP K}
                 then fst (hci_read_u32_le (snd (hci_read_u8 (snd (hci_read_u8
                             (snd (hci_read_u16_le s)))))))
                 else 0)] \<and>
           mosi t = mosi s @ replicate (unat (hci_payload_size s)) 0 \<and>
           hci_payload_size t = 0 \<and> cs_pin t = HIGH)) \<and>
   (incoming s (le16 code @ [args_size, status] @ le32 v @ rest) \<and>
    8 \<le> unat (hci_payload_size s) \<longrightarrow>
      fst (hci_read_u16_le s) = code \<and>
      fst (hci_read_u32_le (snd (hci_read_u8 (snd (hci_read_u8 (snd (hci_read_u16_le s))))))) = v)"
proof -
  let ?e = "fst (hci_read_u16_le s)"
  let ?s2 = "snd (hci_read_u8 (snd (hci_read_u16_le s)))"
  let ?arg = "fst (unsolicited_event K ?e ?s2)"
  let ?s3 = "snd (unsolicited_event K ?e ?s2)"
  let ?s4 = "wifi_callback ?e ?arg ?s3"
  let ?a = "if ?e = HCI_EVNT_WLAN_UNSOL_TCP_CLOSE_WAIT K \<and>
                    ?e \<notin> {HCI_EVNT_WLAN_UNSOL_CONNECT K, HCI_EVNT_WLAN_UNSOL_DISCONNECT K,
                       HCI_EVNT_WLAN_UNSOL_DHCP K}
                 then fst (hci_read_u32_le (snd (hci_read_u8 ?s2))) else 0"
  have "off_link ?s2 = off_link s" by simp
  note f2 = off_link_fields [OF this]
  have f3: "callbacks ?s3 = callbacks ?s2" "irq_reads ?s3 = irq_reads ?s2"
    using unsolicited_event_frame [of ?s2 K ?e] by simp_all
  have arg: "?arg = ?a" by (rule unsolicited_event_arg)
  have cb4: "callbacks ?s4 = callbacks s @ [(?e, ?a)]"
    unfolding arg [symmetric] by (simp add: wifi_callback_def f3 f2)
  have ir4: "irq_reads ?s4 = irq_reads s"
    by (simp add: wifi_callback_def f3 f2)
  have "mosi (discard_unread ?s4) = mosi (discard_unread ?s3)"
    by (simp add: wifi_callback_def mosi_discard)
  also have "\<dots> = mosi (discard_unread ?s2)" by (rule mosi_discard_unsolicited)
  also have "\<dots> = mosi (discard_unread s)" by (simp only: discard_read_u8 discard_read_u16)
  finally have m4: "mosi ?s4 @ replicate (unat (hci_payload_size ?s4)) 0 =
      mosi s @ replicate (unat (hci_payload_size s)) 0"
    by (simp only: mosi_discard)
  have match: "?e = hci_pending_event s \<Longrightarrow>
      hci_dispatch_event K s = Some (?s2\<lparr>hci_pending_event_available := 1\<rparr>)"
    by (simp add: hci_dispatch_event_eq)
  have other: "?e \<noteq> hci_pending_event s \<Longrightarrow> hci_dispatch_event K s = hci_end_receive ?s4"
    by (simp add: hci_dispatch_event_eq)
  have none: "?e \<noteq> hci_pending_event s \<Longrightarrow>
      (hci_dispatch_event K s = None \<longleftrightarrow> HIGH \<notin> set (irq_reads s))"
    using hci_end_receive_None [of ?s4] by (simp add: other ir4)
  have some: "callbacks t = callbacks s @ [(?e, ?a)] \<and>
      mosi t = mosi s @ replicate (unat (hci_payload_size s)) 0 \<and>
      hci_payload_size t = 0 \<and> cs_pin t = HIGH"
    if "?e \<noteq> hci_pending_event s" "hci_dispatch_event K s = Some t" for t
  proof -
    from that have e: "hci_end_receive ?s4 = Some t" by (simp add: other)
    then obtain ps where "t = ?s4\<lparr>hci_payload_size := 0,
           mosi := mosi ?s4 @ replicate (unat (hci_payload_size ?s4)) 0,
           cs_pin := HIGH, irq_reads := ps\<rparr>"
      by (cases "wait_irq_deassert (irq_reads ?s4)") (auto simp: hci_end_receive_eq)
    then have "mosi t = mosi ?s4 @ replicate (unat (hci_payload_size ?s4)) 0" by simp
    with m4 have "mosi t = mosi s @ replicate (unat (hci_payload_size s)) 0" by simp
    with hci_end_receive_frame [OF e] cb4 show ?thesis by simp
  qed
  have pin: "?e = code \<and> fst (hci_read_u32_le (snd (hci_read_u8 ?s2))) = v"
    if "incoming s (le16 code @ [args_size, status] @ le32 v @ rest)"
      "8 \<le> unat (hci_payload_size s)"
    using event_header_incoming [OF that] by simp
  have 1: "?e = hci_pending_event s \<longrightarrow>
      (\<exists>t. hci_dispatch_event K s = Some t \<and>
           t = ?s2\<lparr>hci_pending_event_available := 1\<rparr> \<and>
           callbacks t = callbacks s \<and> cs_pin t = cs_pin s \<and> irq_reads t = irq_reads s \<and>
           length (mosi t) \<le> length (mosi s) + 3)"
    using match header_reads_link [of s] by (simp add: f2)
  from 1 none some pin show ?thesis by blast
qed


theorem hci_dispatch_event_paths_witness:
  "(\<exists>t. hci_dispatch_event sample_h
      (boot\<lparr>hci_payload_size := 9, irq_reads := [HIGH],
            miso := device (le16 0x8800 @ [5, 0] @ le32 2 @ [0xAA])\<rparr>) = Some t \<and>
      callbacks t = [(0x8800, 2)] \<and> mosi t = replicate 9 0 \<and>
      hci_payload_size t = 0 \<and> cs_pin t = HIGH) \<and>
   (\<exists>t. hci_dispatch_event sample_h
      (boot\<lparr>hci_payload_size := 3, miso := device [0x34, 0x12, 0], irq_reads := [HIGH]\<rparr>) = Some t \<and>
      callbacks t = [(0x1234, 0)] \<and> mosi t = [0, 0, 0] \<and>
      hci_payload_size t = 0 \<and> cs_pin t = HIGH) \<and>
   (\<exists>t. hci_dispatch_event sample_h
      (boot\<lparr>hci_payload_size := 3, miso := device [0x01, 0x10, 5],
            hci_pending_event := 0x1001, cs_pin := LOW\<rparr>) = Some t \<and>
      hci_pending_event_available t = 1 \<and> callbacks t = [] \<and> cs_pin t = LOW \<and>
      length (mosi t) \<le> 3)"
proof -
  let ?c = "(boot\<lparr>hci_payload_size := 9, irq_reads := [HIGH],
            miso := device (le16 0x8800 @ [5, 0] @ le32 2 @ [0xAA])\<rparr>)"
  let ?u = "(boot\<lparr>hci_payload_size := 3, miso := device [0x34, 0x12, 0], irq_reads := [HIGH]\<rparr>)"
  let ?m = "(boot\<lparr>hci_payload_size := 3, miso := device [0x01, 0x10, 5],
            hci_pending_event := 0x1001, cs_pin := LOW\<rparr>)"
  note tc = hci_dispatch_event_paths [of ?c sample_h "0x8800" 5 0 2 "[0xAA]"]
  note tu = hci_dispatch_event_paths [of ?u sample_h]
  note tm = hci_dispatch_event_paths [of ?m sample_h]
  have ic: "incoming ?c (le16 0x8800 @ [5, 0] @ le32 2 @ [0xAA])"
    by (rule incoming_device) (simp_all add: boot_def)
  have pc: "8 \<le> unat (hci_payload_size ?c)" by simp
  from tc ic pc have ec: "fst (hci_read_u16_le ?c) = 0x8800"
    and ac: "fst (hci_read_u32_le (snd (hci_read_u8 (snd (hci_read_u8
               (snd (hci_read_u16_le ?c))))))) = 2"
    by blast+
  have fc: "hci_pending_event ?c = 0xffff" "irq_reads ?c = [HIGH]" "callbacks ?c = []"
    "mosi ?c = []" "unat (hci_payload_size ?c) = 9"
    by (simp_all add: boot_def)
  have nc: "fst (hci_read_u16_le ?c) \<noteq> hci_pending_event ?c" unfolding ec fc by simp
  from tc nc have "hci_dispatch_event sample_h ?c \<noteq> None" unfolding fc by simp
  then obtain t1 where t1: "hci_dispatch_event sample_h ?c = Some t1" by blast
  with tc nc have "callbacks t1 = [(0x8800, 2)] \<and> mosi t1 = replicate 9 0 \<and>
      hci_payload_size t1 = 0 \<and> cs_pin t1 = HIGH"
    unfolding ec ac fc by (simp add: sample_h_def)
  with t1 have 1: "\<exists>t. hci_dispatch_event sample_h ?c = Some t \<and>
      callbacks t = [(0x8800, 2)] \<and> mosi t = replicate 9 0 \<and>
      hci_payload_size t = 0 \<and> cs_pin t = HIGH" by blast
  have eu: "fst (hci_read_u16_le ?u) = 0x1234"
    by (simp add: hci_read_u16_le_def hci_read_u8_eq boot_def device_def split_def Let_def)
  have fu: "hci_pending_event ?u = 0xffff" "irq_reads ?u = [HIGH]" "callbacks ?u = []"
    "mosi ?u = []" "unat (hci_payload_size ?u) = 3"
    by (simp_all add: boot_def)
  have r3: "replicate 3 (0 :: u8) = [0, 0, 0]" by (simp add: numeral_3_eq_3)
  have nu: "fst (hci_read_u16_le ?u) \<noteq> hci_pending_event ?u" unfolding eu fu by simp
  from tu nu have "hci_dispatch_event sample_h ?u \<noteq> None" unfolding fu by simp
  then obtain t2 where t2: "hci_dispatch_event sample_h ?u = Some t2" by blast
  with tu nu have "callbacks t2 = [(0x1234, 0)] \<and> mosi t2 = [0, 0, 0] \<and>
      hci_payload_size t2 = 0 \<and> cs_pin t2 = HIGH"
    unfolding eu fu r3 by (simp add: sample_h_def)
  with t2 have 2: "\<exists>t. hci_dispatch_event sample_h ?u = Some t \<and>
      callbacks t = [(0x1234, 0)] \<and> mosi t = [0, 0, 0] \<and>
      hci_payload_size t = 0 \<and> cs_pin t = HIGH" by blast
  have em: "fst (hci_read_u16_le ?m) = 0x1001"
    by (simp add: hci_read_u16_le_def hci_read_u8_eq boot_def device_def split_def Let_def)
  have fm: "hci_pending_event ?m = 0x1001" "callbacks ?m = []" "cs_pin ?m = LOW"
    "length (mosi ?m) = 0"
    by (simp_all add: boot_def)
  have eq: "fst (hci_read_u16_le ?m) = hci_pending_event ?m" unfolding em fm by simp
  with tm obtain t3 where t3: "hci_dispatch_event sample_h ?m = Some t3"
    "t3 = (snd (hci_read_u8 (snd (hci_read_u16_le ?m))))\<lparr>hci_pending_event_available := 1\<rparr>"
    "callbacks t3 = callbacks ?m" "cs_pin t3 = cs_pin ?m"
    "length (mosi t3) \<le> length (mosi ?m) + 3" by blast
  then have 3: "\<exists>t. hci_dispatch_event sample_h ?m = Some t \<and>
        hci_pending_event_available t = 1 \<and> callbacks t = [] \<and> cs_pin t = LOW \<and>
        length (mosi t) \<le> 3"
    unfolding fm by simp
  from 1 2 3 show ?thesis by blast
qed

subsection \<open>The pool at the time of the close request\<close>













subsection \<open>The deadline of the reply\<close>

text \<open>
  C3. The wait of \<^verbatim>\<open>hci_end_command_begin_receive\<close> and the "device locked"
  callback. The test after the loop, \<^verbatim>\<open>if (tmr < millis())\<close>, is made on a new reading
  of the clock and not on the flag, and the deadline \<^verbatim>\<open>tmr = millis() + timeout\<close> is a
  sum that wraps, where \<^verbatim>\<open>hci_begin_first_command\<close> measures \<^verbatim>\<open>millis() - start\<close>.
  Two runs with a timeout of 1000. In the first the loop reads the clock at 1000, the
  interrupt then brings the awaited event and sets the flag, the loop ends without another
  reading, and the reading after the loop is 1001: the reply has come within the deadline
  and the callback is invoked with the "device locked" event all the same. In the second
  the clock stands at \<^verbatim>\<open>0xFFFFFF00\<close>: the deadline wraps to 744, the loop ends at its
  first test and the callback is invoked although no time has gone by.
\<close>

theorem reply_deadline_runs:
  "fst (arm_reply HCI_CMND_SOCKET 1000
     (boot\<lparr>irqs := [True], miso := device [0, 0, 0, 0, 9, 4, 0x01, 0x10, 5],
           clock := readings [0, 1000, 1001]\<rparr>)) = 1000 \<and>
   hci_pending_event_available (the (await_reply sample_h HCI_CMND_SOCKET 1000
     (boot\<lparr>irqs := [True], miso := device [0, 0, 0, 0, 9, 4, 0x01, 0x10, 5],
           clock := readings [0, 1000, 1001]\<rparr>))) = 1 \<and>
   clock_reads (the (await_reply sample_h HCI_CMND_SOCKET 1000
     (boot\<lparr>irqs := [True], miso := device [0, 0, 0, 0, 9, 4, 0x01, 0x10, 5],
           clock := readings [0, 1000, 1001]\<rparr>))) = 2 \<and>
   callbacks (the (await_reply sample_h HCI_CMND_SOCKET 1000
     (boot\<lparr>irqs := [True], miso := device [0, 0, 0, 0, 9, 4, 0x01, 0x10, 5],
           clock := readings [0, 1000, 1001]\<rparr>))) = [] \<and>
   callbacks (the (hci_end_command_begin_receive sample_h HCI_CMND_SOCKET 1000
     (boot\<lparr>irqs := [True], miso := device [0, 0, 0, 0, 9, 4, 0x01, 0x10, 5],
           clock := readings [0, 1000, 1001]\<rparr>))) =
     [(HCI_EVNT_CC3000_LOCKED sample_h, 0)] \<and>
   fst (arm_reply HCI_CMND_SOCKET 1000
     (boot\<lparr>clock := readings [0xFFFFFF00]\<rparr>)) = 744 \<and>
   hci_pending_event_available (the (await_reply sample_h HCI_CMND_SOCKET 1000
     (boot\<lparr>clock := readings [0xFFFFFF00]\<rparr>))) = 0 \<and>
   clock_reads (the (await_reply sample_h HCI_CMND_SOCKET 1000
     (boot\<lparr>clock := readings [0xFFFFFF00]\<rparr>))) = 2 \<and>
   callbacks (the (hci_end_command_begin_receive sample_h HCI_CMND_SOCKET 1000
     (boot\<lparr>clock := readings [0xFFFFFF00]\<rparr>))) =
     [(HCI_EVNT_CC3000_LOCKED sample_h, 0)]"
  by code_simp

end
